theory Spec2Isabelle
  imports Main "HOL-Library.Multiset"
begin

section \<open>Strings and the regular expressions of main.ts\<close>

text \<open>
  A JavaScript string is a sequence of UTF-16 code units. The model takes a string as a
  \<^typ>\<open>char list\<close> and reads each \<^typ>\<open>char\<close> as one code unit below 256, so the
  white space class of JavaScript (\<^verbatim>\<open>\s\<close> in a regular expression, and what
  \<^verbatim>\<open>trim\<close> removes) is TAB, LF, VT, FF, CR, SPACE and NBSP here.
\<close>

definition isWhiteSpace :: "char \<Rightarrow> bool" where
  "isWhiteSpace c \<longleftrightarrow>
     c = CHR 0x09 \<or> c = CHR 0x0A \<or> c = CHR 0x0B \<or> c = CHR 0x0C \<or> c = CHR 0x0D \<or>
     c = CHR 0x20 \<or> c = CHR 0xA0"

definition isBullet :: "char \<Rightarrow> bool" where
  "isBullet c \<longleftrightarrow> c = CHR ''-'' \<or> c = CHR ''*'' \<or> c = CHR ''+''"

text \<open>\<^verbatim>\<open>getIndentationLevel\<close>: the length of the match of \<^verbatim>\<open>/^\s*/\<close>.\<close>

definition getIndentationLevel :: "string \<Rightarrow> nat" where
  "getIndentationLevel line = length (takeWhile isWhiteSpace line)"

text \<open>\<^verbatim>\<open>listItemRegex.test\<close>, for \<^verbatim>\<open>/^\s*[-*+]\s+/\<close>.\<close>

definition listItemRegex :: "string \<Rightarrow> bool" where
  "listItemRegex s =
     (case dropWhile isWhiteSpace s of
        b # w # _ \<Rightarrow> isBullet b \<and> isWhiteSpace w
      | _ \<Rightarrow> False)"

text \<open>\<^verbatim>\<open>tickedCheckboxRegex.test\<close>, for \<^verbatim>\<open>/^\s*[-*+]\s+\[x\]/\<close>.\<close>

definition tickedCheckboxRegex :: "string \<Rightarrow> bool" where
  "tickedCheckboxRegex s =
     (case dropWhile isWhiteSpace s of
        b # w # r \<Rightarrow> isBullet b \<and> isWhiteSpace w \<and> take 3 (dropWhile isWhiteSpace r) = ''[x]''
      | _ \<Rightarrow> False)"

text \<open>\<^verbatim>\<open>String.prototype.trim\<close>.\<close>

definition trim :: "string \<Rightarrow> string" where
  "trim s = rev (dropWhile isWhiteSpace (rev (dropWhile isWhiteSpace s)))"

text \<open>\<^verbatim>\<open>s.includes(t)\<close>: \<open>t\<close> occurs in \<open>s\<close> as a substring.\<close>

fun includesStr :: "string \<Rightarrow> string \<Rightarrow> bool" where
  "includesStr [] t = (t = [])"
| "includesStr (c # cs) t = (take (length t) (c # cs) = t \<or> includesStr cs t)"

text \<open>\<^verbatim>\<open>s.replace(pat, rep)\<close> with a string pattern: the first occurrence only.\<close>

fun replace :: "string \<Rightarrow> string \<Rightarrow> string \<Rightarrow> string" where
  "replace [] pat rep = (if pat = [] then rep else [])"
| "replace (c # cs) pat rep =
     (if take (length pat) (c # cs) = pat then rep @ drop (length pat) (c # cs)
      else c # replace cs pat rep)"

definition newline :: char where
  "newline = CHR 0x0A"

text \<open>\<^verbatim>\<open>s.split('\n')\<close> and \<^verbatim>\<open>lines.join('\n')\<close>.\<close>

fun split :: "string \<Rightarrow> string list" where
  "split [] = [[]]"
| "split (c # cs) =
     (if c = newline then [] # split cs
      else (case split cs of l # ls \<Rightarrow> (c # l) # ls | [] \<Rightarrow> [[c]]))"

fun join :: "string list \<Rightarrow> string" where
  "join [] = []"
| "join [l] = l"
| "join (l # m # ls) = l @ newline # join (m # ls)"

text \<open>\<^verbatim>\<open>s.endsWith('\n')\<close> and \<^verbatim>\<open>s.slice(0,-1)\<close>.\<close>

definition endsWithNewline :: "string \<Rightarrow> bool" where
  "endsWithNewline s \<longleftrightarrow> s \<noteq> [] \<and> last s = newline"

definition slice_0_m1 :: "string \<Rightarrow> string" where
  "slice_0_m1 s = butlast s"

section \<open>The editor buffer\<close>

text \<open>
  The editor holds the document as its lines; line \<open>i\<close> is \<open>d ! i\<close> and holds no line
  break. A position is a line and a column. The text of the document is its lines joined
  by line breaks, and a transaction with one change replaces the text between two
  positions.
\<close>

type_synonym document = "string list"

record pos =
  line :: nat
  ch :: nat

definition lineCount :: "document \<Rightarrow> nat" where
  "lineCount d = length d"

definition getLine :: "document \<Rightarrow> nat \<Rightarrow> string" where
  "getLine d i = d ! i"

definition posToOffset :: "document \<Rightarrow> pos \<Rightarrow> nat" where
  "posToOffset d p = length (concat (map (\<lambda>l. l @ [newline]) (take (line p) d))) + ch p"

definition getRange :: "document \<Rightarrow> pos \<Rightarrow> pos \<Rightarrow> string" where
  "getRange d from to =
     take (posToOffset d to - posToOffset d from) (drop (posToOffset d from) (join d))"

definition transaction :: "document \<Rightarrow> pos \<Rightarrow> pos \<Rightarrow> string \<Rightarrow> document" where
  "transaction d from to text =
     split (take (posToOffset d from) (join d) @ text @ drop (posToOffset d to) (join d))"

section \<open>Settings and the metadata of the file\<close>

record CheckboxSortSettings =
  enableGlobalCheckboxSort :: bool
  debugMode :: bool

text \<open>A value of the front matter, as far as \<^verbatim>\<open>typeof\<close> and \<^verbatim>\<open>!== undefined\<close> tell them apart.\<close>

datatype jsvalue =
  JSUndefined | JSNull | JSBoolean bool | JSNumber int | JSString string | JSObject

record CachedMetadata =
  frontmatter :: "(string \<Rightarrow> jsvalue) option"

text \<open>
  What \<^verbatim>\<open>sortCheckboxesAroundClick\<close> reads of its surroundings: the settings of the
  plug-in, the editor of the view, whether the view has a file, and what
  \<^verbatim>\<open>metadataCache.getFileCache\<close> returns for it (nothing until the file is saved).
\<close>

record MarkdownView =
  editor :: document
  viewFile :: bool
  fileCache :: "CachedMetadata option"

definition fileLevelSortingEnabled :: "CheckboxSortSettings \<Rightarrow> MarkdownView \<Rightarrow> bool" where
  "fileLevelSortingEnabled settings view =
     (if viewFile view then
        (case fileCache view of
           None \<Rightarrow> enableGlobalCheckboxSort settings
         | Some cache \<Rightarrow>
             (case frontmatter cache of
                None \<Rightarrow> enableGlobalCheckboxSort settings
              | Some fm \<Rightarrow>
                  (case fm ''checkbox-sort'' of
                     JSBoolean b \<Rightarrow> b
                   | _ \<Rightarrow> enableGlobalCheckboxSort settings)))
      else enableGlobalCheckboxSort settings)"

section \<open>The list marker above the clicked line\<close>

definition enableMarker :: string where
  "enableMarker = ''%%checkbox-sort: true%%''"

definition disableMarker :: string where
  "disableMarker = ''%%checkbox-sort: false%%''"

text \<open>
  The loop \<^verbatim>\<open>for (scanLineNum = clickedLineNumber - 1; scanLineNum >= 0; scanLineNum--)\<close>;
  the argument \<open>n\<close> is \<open>scanLineNum + 1\<close>. The result is \<^verbatim>\<open>listMarkerFound\<close>,
  \<open>None\<close> for \<^verbatim>\<open>null\<close>.
\<close>

fun scanListMarker :: "document \<Rightarrow> nat \<Rightarrow> bool option" where
  "scanListMarker d 0 = None"
| "scanListMarker d (Suc scanLineNum) =
     (let lineContent = trim (getLine d scanLineNum) in
      if includesStr lineContent enableMarker then Some True
      else if includesStr lineContent disableMarker then Some False
      else if \<not> listItemRegex lineContent then None
      else scanListMarker d scanLineNum)"

definition effectiveSortingEnabled ::
    "CheckboxSortSettings \<Rightarrow> MarkdownView \<Rightarrow> nat \<Rightarrow> bool" where
  "effectiveSortingEnabled settings view clickedLineNumber =
     (case scanListMarker (editor view) clickedLineNumber of
        Some listMarkerFound \<Rightarrow> listMarkerFound
      | None \<Rightarrow> fileLevelSortingEnabled settings view)"

section \<open>The boundaries of the peer block\<close>

text \<open>The scan up for \<^verbatim>\<open>blockStartLine\<close>; the argument \<open>n\<close> is \<open>i + 1\<close>.\<close>

fun scanUp :: "document \<Rightarrow> nat \<Rightarrow> nat \<Rightarrow> nat \<Rightarrow> nat" where
  "scanUp d currentIndent 0 blockStartLine = blockStartLine"
| "scanUp d currentIndent (Suc i) blockStartLine =
     (let l = getLine d i; indent = getIndentationLevel l in
      if \<not> listItemRegex l then blockStartLine
      else if indent = currentIndent then scanUp d currentIndent i i
      else if indent < currentIndent then blockStartLine
      else scanUp d currentIndent i blockStartLine)"

text \<open>The scan down for \<^verbatim>\<open>blockEndLine\<close>, from \<open>i\<close> while \<open>i < totalLines\<close>.\<close>

function scanDown :: "document \<Rightarrow> nat \<Rightarrow> nat \<Rightarrow> nat \<Rightarrow> nat" where
  "scanDown d currentIndent i blockEndLine =
     (if i < lineCount d then
        (let l = getLine d i; indent = getIndentationLevel l in
         if \<not> listItemRegex l then blockEndLine
         else if indent = currentIndent then scanDown d currentIndent (i + 1) i
         else if indent < currentIndent then blockEndLine
         else scanDown d currentIndent (i + 1) blockEndLine)
      else blockEndLine)"
  by pat_completeness auto
termination
  by (relation "measure (\<lambda>(d, c, i, e). lineCount d - i)") auto

declare scanDown.simps [simp del]

text \<open>The end of the tree of one peer: the loop over \<open>j\<close> from \<open>i + 1\<close>.\<close>

function scanTree :: "document \<Rightarrow> nat \<Rightarrow> nat \<Rightarrow> nat \<Rightarrow> nat" where
  "scanTree d currentPeerIndent j peerTreeEndLine =
     (if j < lineCount d then
        (let descLineText = getLine d j; descIndent = getIndentationLevel descLineText in
         if \<not> listItemRegex descLineText \<or> descIndent \<le> currentPeerIndent
         then peerTreeEndLine
         else scanTree d currentPeerIndent (j + 1) j)
      else peerTreeEndLine)"
  by pat_completeness auto
termination
  by (relation "measure (\<lambda>(d, c, j, e). lineCount d - j)") auto

declare scanTree.simps [simp del]

text \<open>The end of the whole structure: the loop from \<open>blockEndLine + 1\<close>.\<close>

function scanOverall :: "document \<Rightarrow> nat \<Rightarrow> nat \<Rightarrow> nat \<Rightarrow> nat" where
  "scanOverall d currentIndent i overallBlockEndLine =
     (if i < lineCount d then
        (let l = getLine d i; indent = getIndentationLevel l in
         if \<not> listItemRegex l \<or> indent < currentIndent then overallBlockEndLine
         else scanOverall d currentIndent (i + 1) i)
      else overallBlockEndLine)"
  by pat_completeness auto
termination
  by (relation "measure (\<lambda>(d, c, i, e). lineCount d - i)") auto

declare scanOverall.simps [simp del]

section \<open>The peers and their trees\<close>

text \<open>
  The text of one tree: the loop over \<open>k\<close> from \<open>i\<close> to \<open>peerTreeEndLine\<close>, which
  adds a line break after every line but the last line of the file.
\<close>

function buildTreeText :: "document \<Rightarrow> nat \<Rightarrow> nat \<Rightarrow> string \<Rightarrow> string" where
  "buildTreeText d k peerTreeEndLine peerTreeText =
     (if k \<le> peerTreeEndLine then
        buildTreeText d (k + 1) peerTreeEndLine
          (peerTreeText @ getLine d k @ (if k + 1 = lineCount d then [] else [newline]))
      else peerTreeText)"
  by pat_completeness auto
termination
  by (relation "measure (\<lambda>(d, k, e, t). e + 1 - k)") auto

declare buildTreeText.simps [simp del]

text \<open>
  The clicked item: the first line of the text of its tree gets the new state of the
  check box.
\<close>

definition updateClickedText :: "bool \<Rightarrow> string \<Rightarrow> string" where
  "updateClickedText isNowTicked peerTreeText =
     (let lines = split peerTreeText in
      if length lines > 0 then
        join (lines[0 := (if isNowTicked then replace (lines ! 0) ''[ ]'' ''[x]''
                          else replace (lines ! 0) ''[x]'' ''[ ]'')])
      else peerTreeText)"

record itemData =
  itemText :: string
  originalLine :: nat

text \<open>
  The loop \<^verbatim>\<open>while (i <= blockEndLine)\<close>; the state is the pair of
  \<^verbatim>\<open>untickedItemsData\<close> and \<^verbatim>\<open>tickedItemsData\<close>.
\<close>

function peersLoop ::
    "document \<Rightarrow> nat \<Rightarrow> nat \<Rightarrow> bool \<Rightarrow> nat \<Rightarrow> nat \<Rightarrow> itemData list \<times> itemData list
      \<Rightarrow> itemData list \<times> itemData list" where
  "peersLoop d clickedLineNumber currentIndent isNowTicked blockEndLine i
       (untickedItemsData, tickedItemsData) =
     (if i \<le> blockEndLine then
        (let currentPeerLineText = getLine d i;
             currentPeerIndent = getIndentationLevel currentPeerLineText in
         if \<not> listItemRegex currentPeerLineText \<or> currentPeerIndent \<noteq> currentIndent then
           peersLoop d clickedLineNumber currentIndent isNowTicked blockEndLine (i + 1)
             (untickedItemsData, tickedItemsData)
         else
           (let peerTreeEndLine = scanTree d currentPeerIndent (i + 1) i;
                peerTreeText = buildTreeText d i peerTreeEndLine [];
                isPeerTickedForSorting =
                  (if i = clickedLineNumber then isNowTicked
                   else tickedCheckboxRegex currentPeerLineText);
                peerTreeText' =
                  (if i = clickedLineNumber then updateClickedText isNowTicked peerTreeText
                   else peerTreeText);
                itemData = \<lparr>itemText = peerTreeText', originalLine = i\<rparr> in
            peersLoop d clickedLineNumber currentIndent isNowTicked blockEndLine
              (peerTreeEndLine + 1)
              (if isPeerTickedForSorting then (untickedItemsData, tickedItemsData @ [itemData])
               else (untickedItemsData @ [itemData], tickedItemsData))))
      else (untickedItemsData, tickedItemsData))"
  by pat_completeness auto
termination
proof -
  have ge: "e0 \<le> scanTree d p j e0 \<or> j \<le> e0" for d p j e0
  proof (induction d p j e0 rule: scanTree.induct)
    case (1 d p j e0)
    show ?case
    proof (cases "j \<le> e0")
      case True
      then show ?thesis by simp
    next
      case False
      then have lt: "e0 < j" by simp
      show ?thesis
      proof (cases "j < lineCount d \<and>
          \<not> (\<not> listItemRegex (getLine d j) \<or> getIndentationLevel (getLine d j) \<le> p)")
        case True
        with 1 have "j \<le> scanTree d p (j + 1) j \<or> j + 1 \<le> j" by simp
        then have "j \<le> scanTree d p (j + 1) j" by simp
        moreover from True have "scanTree d p j e0 = scanTree d p (j + 1) j"
          by (subst scanTree.simps) (simp add: Let_def)
        ultimately show ?thesis using lt by simp
      next
        case False
        then have "scanTree d p j e0 = e0"
          by (subst scanTree.simps) (auto simp: Let_def)
        then show ?thesis by simp
      qed
    qed
  qed
  have up: "i \<le> scanTree d p (i + 1) i" for d p i
    using ge [of i d p "i + 1"] by simp
  show ?thesis
  proof (relation "measure (\<lambda>(d, c, ci, t, e, i, s). e + 1 - i)", goal_cases)
    case 1
    show ?case by simp
  next
    case (2 d c ci t e i u ti l ind)
    then show ?case by simp
  next
    case (3 d c ci t e i u ti l ind pe ptext tk ptext2 item)
    from up [of i d ind] \<open>pe = scanTree d ind (i + 1) i\<close> have "i \<le> pe" by simp
    with \<open>i \<le> e\<close> have "e + 1 - (pe + 1) < e + 1 - i" by simp
    then show ?case by (cases tk) simp_all
  qed
qed

declare peersLoop.simps [simp del]

section \<open>sortCheckboxesAroundClick\<close>

text \<open>
  What a call does to the buffer: nothing (for one of four reasons), or one transaction
  with one change. \<open>LineNotFound\<close> is the error that \<^verbatim>\<open>editor.getLine\<close> raises for
  a line the document does not have, at the first read of the clicked line.
\<close>

datatype outcome =
  LineNotFound
| SortingDisabled
| NotAListItem
| NoChangesNeeded
| Transaction pos pos string

definition currentIndent :: "document \<Rightarrow> nat \<Rightarrow> nat" where
  "currentIndent d clickedLineNumber = getIndentationLevel (getLine d clickedLineNumber)"

definition isNowTicked :: "document \<Rightarrow> nat \<Rightarrow> bool" where
  "isNowTicked d clickedLineNumber \<longleftrightarrow> \<not> tickedCheckboxRegex (getLine d clickedLineNumber)"

definition blockStartLine :: "document \<Rightarrow> nat \<Rightarrow> nat" where
  "blockStartLine d clickedLineNumber =
     scanUp d (currentIndent d clickedLineNumber) clickedLineNumber clickedLineNumber"

definition blockEndLine :: "document \<Rightarrow> nat \<Rightarrow> nat" where
  "blockEndLine d clickedLineNumber =
     scanDown d (currentIndent d clickedLineNumber) (clickedLineNumber + 1) clickedLineNumber"

definition peerItems :: "document \<Rightarrow> nat \<Rightarrow> itemData list \<times> itemData list" where
  "peerItems d clickedLineNumber =
     peersLoop d clickedLineNumber (currentIndent d clickedLineNumber)
       (isNowTicked d clickedLineNumber) (blockEndLine d clickedLineNumber)
       (blockStartLine d clickedLineNumber) ([], [])"

definition finalBlockText :: "document \<Rightarrow> nat \<Rightarrow> string" where
  "finalBlockText d clickedLineNumber =
     (case peerItems d clickedLineNumber of
        (untickedItemsData, tickedItemsData) \<Rightarrow>
          concat (map itemText untickedItemsData) @ concat (map itemText tickedItemsData))"

definition overallBlockEndLine :: "document \<Rightarrow> nat \<Rightarrow> nat" where
  "overallBlockEndLine d clickedLineNumber =
     scanOverall d (currentIndent d clickedLineNumber) (blockEndLine d clickedLineNumber + 1)
       (blockEndLine d clickedLineNumber)"

definition deleteFrom :: "document \<Rightarrow> nat \<Rightarrow> pos" where
  "deleteFrom d clickedLineNumber = \<lparr>line = blockStartLine d clickedLineNumber, ch = 0\<rparr>"

definition deleteTo :: "document \<Rightarrow> nat \<Rightarrow> pos" where
  "deleteTo d clickedLineNumber =
     (let e = overallBlockEndLine d clickedLineNumber in
      if e + 1 = lineCount d then \<lparr>line = e, ch = length (getLine d e)\<rparr>
      else \<lparr>line = e + 1, ch = 0\<rparr>)"

definition textToInsert :: "document \<Rightarrow> nat \<Rightarrow> string" where
  "textToInsert d clickedLineNumber =
     (let e = overallBlockEndLine d clickedLineNumber;
          t0 = finalBlockText d clickedLineNumber;
          t1 = (if \<not> endsWithNewline t0 \<and> e + 1 < lineCount d then t0 @ [newline] else t0)
      in if endsWithNewline t1 \<and> e + 1 = lineCount d then slice_0_m1 t1 else t1)"

definition originalBlockText :: "document \<Rightarrow> nat \<Rightarrow> string" where
  "originalBlockText d clickedLineNumber =
     getRange d (deleteFrom d clickedLineNumber) (deleteTo d clickedLineNumber)"

text \<open>The body of the \<^verbatim>\<open>try\<close> block.\<close>

definition sortPeerBlock :: "document \<Rightarrow> nat \<Rightarrow> outcome" where
  "sortPeerBlock d clickedLineNumber =
     (if \<not> listItemRegex (getLine d clickedLineNumber) then NotAListItem
      else if trim (textToInsert d clickedLineNumber) = trim (originalBlockText d clickedLineNumber)
      then NoChangesNeeded
      else Transaction (deleteFrom d clickedLineNumber) (deleteTo d clickedLineNumber)
             (textToInsert d clickedLineNumber))"

definition sortCheckboxesAroundClick ::
    "CheckboxSortSettings \<Rightarrow> MarkdownView \<Rightarrow> nat \<Rightarrow> outcome" where
  "sortCheckboxesAroundClick settings view clickedLineNumber =
     (if \<not> clickedLineNumber < lineCount (editor view) then LineNotFound
      else if \<not> effectiveSortingEnabled settings view clickedLineNumber then SortingDisabled
      else sortPeerBlock (editor view) clickedLineNumber)"

text \<open>The document after the call.\<close>

definition documentAfter :: "document \<Rightarrow> outcome \<Rightarrow> document" where
  "documentAfter d out =
     (case out of Transaction from to t \<Rightarrow> transaction d from to t | _ \<Rightarrow> d)"

section \<open>Notions for the statements and the proofs\<close>

text \<open>A document as the editor holds it: no line holds a line break.\<close>

definition wellFormed :: "document \<Rightarrow> bool" where
  "wellFormed d \<longleftrightarrow> (\<forall>l\<in>set d. newline \<notin> set l)"

text \<open>Two texts that are the same but for one line break at the end of one of them.\<close>

definition sameUpToTrailingNewline :: "string \<Rightarrow> string \<Rightarrow> bool" where
  "sameUpToTrailingNewline a b \<longleftrightarrow> a = b \<or> a = b @ [newline] \<or> b = a @ [newline]"

text \<open>The first line of the clicked item after \<^const>\<open>updateClickedText\<close>.\<close>

definition flipped :: "bool \<Rightarrow> string \<Rightarrow> string" where
  "flipped now l = (if now then replace l ''[ ]'' ''[x]'' else replace l ''[x]'' ''[ ]'')"

text \<open>
  What the scans test of a line, for the indentation \<open>cur\<close> of the clicked line: a peer,
  a line below a peer, either of them.
\<close>

definition isPeer :: "nat \<Rightarrow> string \<Rightarrow> bool" where
  "isPeer cur l \<longleftrightarrow> listItemRegex l \<and> getIndentationLevel l = cur"

definition isDeeper :: "nat \<Rightarrow> string \<Rightarrow> bool" where
  "isDeeper cur l \<longleftrightarrow> listItemRegex l \<and> cur < getIndentationLevel l"

definition isWithin :: "nat \<Rightarrow> string \<Rightarrow> bool" where
  "isWithin cur l \<longleftrightarrow> listItemRegex l \<and> cur \<le> getIndentationLevel l"

text \<open>Line \<open>r\<close> is the last of the run of lines with the property \<open>Q\<close> that follows line \<open>e\<close>.\<close>

definition runEnd :: "(string \<Rightarrow> bool) \<Rightarrow> document \<Rightarrow> nat \<Rightarrow> nat \<Rightarrow> bool" where
  "runEnd Q d e r \<longleftrightarrow>
     e \<le> r \<and> (e < length d \<longrightarrow> r < length d) \<and> (\<forall>k. e < k \<and> k \<le> r \<longrightarrow> Q (d ! k)) \<and>
     (Suc r < length d \<longrightarrow> \<not> Q (d ! Suc r))"

text \<open>
  Line \<open>k\<close> as \<^const>\<open>buildTreeText\<close> adds it, and as it is in the text of the document:
  with a line break, unless it is the last line.
\<close>

definition lineWithBreak :: "document \<Rightarrow> nat \<Rightarrow> string" where
  "lineWithBreak d k = getLine d k @ (if k + 1 = lineCount d then [] else [newline])"

text \<open>The same for the text to insert: the clicked line \<open>c\<close> has its new marker.\<close>

definition newLineWithBreak :: "document \<Rightarrow> nat \<Rightarrow> nat \<Rightarrow> string" where
  "newLineWithBreak d c k =
     (if k = c then flipped (isNowTicked d c) (getLine d c) else getLine d k) @
     (if k + 1 = lineCount d then [] else [newline])"

text \<open>Line \<open>k\<close> of the document after the rewrite, without its line break.\<close>

definition newLine :: "document \<Rightarrow> nat \<Rightarrow> nat \<Rightarrow> string" where
  "newLine d c k = (if k = c then flipped (isNowTicked d c) (getLine d c) else getLine d k)"

text \<open>
  A tree is the pair of the line of a peer and the last line below it. Its lines, the
  text that \<^const>\<open>peersLoop\<close> stores for it, the bucket it goes to, and its item.
\<close>

definition treeLines :: "nat \<times> nat \<Rightarrow> nat list" where
  "treeLines t = [fst t..<Suc (snd t)]"

definition treeText :: "document \<Rightarrow> nat \<Rightarrow> bool \<Rightarrow> nat \<times> nat \<Rightarrow> string" where
  "treeText d c now t =
     (if fst t = c then updateClickedText now (concat (map (lineWithBreak d) (treeLines t)))
      else concat (map (lineWithBreak d) (treeLines t)))"

definition treeTicked :: "document \<Rightarrow> nat \<Rightarrow> bool \<Rightarrow> nat \<times> nat \<Rightarrow> bool" where
  "treeTicked d c now t = (if fst t = c then now else tickedCheckboxRegex (getLine d (fst t)))"

definition treeItem :: "document \<Rightarrow> nat \<Rightarrow> bool \<Rightarrow> nat \<times> nat \<Rightarrow> itemData" where
  "treeItem d c now t = \<lparr>itemText = treeText d c now t, originalLine = fst t\<rparr>"

text \<open>
  For the comparison of trimmed texts: a line with a character that is not white space,
  the two halves of \<^const>\<open>trim\<close>, lines each followed by a line break, and the number
  of line breaks of a text.
\<close>

definition solid :: "string \<Rightarrow> bool" where
  "solid l \<longleftrightarrow> (\<exists>x\<in>set l. \<not> isWhiteSpace x)"

definition ltrim :: "string \<Rightarrow> string" where
  "ltrim s = dropWhile isWhiteSpace s"

definition rtrim :: "string \<Rightarrow> string" where
  "rtrim s = rev (dropWhile isWhiteSpace (rev s))"

definition unlines :: "string list \<Rightarrow> string" where
  "unlines ls = concat (map (\<lambda>l. l @ [newline]) ls)"

definition breaks :: "string \<Rightarrow> nat" where
  "breaks s = length (filter ((=) newline) s)"

section \<open>Strings\<close>

lemma split_not_Nil: "split s \<noteq> []"
  by (induction s) (auto split: list.splits)

lemma split_no_newline: "newline \<notin> set l \<Longrightarrow> split l = [l]"
  by (induction l) auto

lemma split_append_newline: "newline \<notin> set l \<Longrightarrow> split (l @ newline # r) = l # split r"
  by (induction l) auto

lemma join_Cons: "ls \<noteq> [] \<Longrightarrow> join (l # ls) = l @ newline # join ls"
  by (cases ls) auto

lemma join_split: "join (split s) = s"
proof (induction s)
  case Nil
  show ?case by simp
next
  case (Cons c s)
  show ?case
  proof (cases "c = newline")
    case True
    with Cons show ?thesis by (simp add: join_Cons split_not_Nil)
  next
    case False
    obtain l ls where sp: "split s = l # ls"
      using split_not_Nil [of s] by (cases "split s") auto
    with Cons have "join (l # ls) = s" by simp
    then have "join ((c # l) # ls) = c # s" by (cases ls) auto
    with False sp show ?thesis by simp
  qed
qed

lemma split_join:
  "ls \<noteq> [] \<Longrightarrow> \<forall>l\<in>set ls. newline \<notin> set l \<Longrightarrow> split (join ls) = ls"
proof (induction ls rule: join.induct)
  case 1
  then show ?case by simp
next
  case (2 l)
  then show ?case by (simp add: split_no_newline)
next
  case (3 l m ls)
  then show ?case by (simp add: split_append_newline)
qed

lemma isWhiteSpace_newline: "isWhiteSpace newline"
  by (simp add: isWhiteSpace_def newline_def)

lemma trim_snoc:
  assumes "isWhiteSpace c" shows "trim (s @ [c]) = trim s"
proof (cases "\<forall>x\<in>set s. isWhiteSpace x")
  case True
  then have a: "dropWhile isWhiteSpace s = []" by simp
  from True assms have b: "dropWhile isWhiteSpace (s @ [c]) = []" by simp
  show ?thesis unfolding trim_def a b by simp
next
  case False
  then obtain x where "x \<in> set s" "\<not> isWhiteSpace x" by blast
  then have "dropWhile isWhiteSpace (s @ [c]) = dropWhile isWhiteSpace s @ [c]"
    by (rule dropWhile_append1)
  with assms show ?thesis by (simp add: trim_def)
qed

lemma filter_dropWhile_other:
  "(\<And>x. P x \<Longrightarrow> \<not> Q x) \<Longrightarrow> filter P (dropWhile Q s) = filter P s"
  by (induction s) auto

lemma filter_trim:
  assumes "\<And>x. P x \<Longrightarrow> \<not> isWhiteSpace x"
  shows "filter P (trim s) = filter P s"
proof -
  have "filter P (trim s) = rev (filter P (dropWhile isWhiteSpace (rev (dropWhile isWhiteSpace s))))"
    by (simp add: trim_def rev_filter)
  also have "\<dots> = rev (filter P (rev (dropWhile isWhiteSpace s)))"
    using assms by (simp add: filter_dropWhile_other)
  also have "\<dots> = filter P (dropWhile isWhiteSpace s)"
    by (simp add: rev_filter)
  also have "\<dots> = filter P s"
    using assms by (simp add: filter_dropWhile_other)
  finally show ?thesis .
qed

lemma replace_cases:
  "replace l p r = l \<or> (\<exists>a b. l = a @ p @ b \<and> replace l p r = a @ r @ b)"
proof (induction l)
  case Nil
  show ?case by simp
next
  case (Cons c l)
  show ?case
  proof (cases "take (length p) (c # l) = p")
    case True
    then have "c # l = [] @ p @ drop (length p) (c # l)"
      by (metis append_Nil append_take_drop_id)
    moreover from True have "replace (c # l) p r = [] @ r @ drop (length p) (c # l)"
      by simp
    ultimately show ?thesis by blast
  next
    case False
    then have eq: "replace (c # l) p r = c # replace l p r" by simp
    from Cons show ?thesis
    proof
      assume "replace l p r = l"
      with eq show ?thesis by simp
    next
      assume "\<exists>a b. l = a @ p @ b \<and> replace l p r = a @ r @ b"
      then obtain a b where "l = a @ p @ b" "replace l p r = a @ r @ b" by blast
      with eq have "c # l = (c # a) @ p @ b \<and> replace (c # l) p r = (c # a) @ r @ b"
        by simp
      then show ?thesis by blast
    qed
  qed
qed

lemma replace_no_newline:
  "newline \<notin> set l \<Longrightarrow> newline \<notin> set r \<Longrightarrow> newline \<notin> set (replace l p r)"
  using replace_cases [of l p r] by auto

lemma flipped_no_newline:
  assumes "newline \<notin> set l" shows "newline \<notin> set (flipped now l)"
proof -
  have "newline \<notin> set ''[x]''" "newline \<notin> set ''[ ]''"
    by (simp_all add: newline_def)
  with assms show ?thesis by (simp add: flipped_def replace_no_newline)
qed

lemma flipped_count:
  "flipped now l = l \<or>
   length (filter ((=) CHR ''x'') (flipped now l)) \<noteq> length (filter ((=) CHR ''x'') l)"
proof (cases now)
  case True
  with replace_cases [of l "''[ ]''" "''[x]''"] show ?thesis
    by (auto simp: flipped_def)
next
  case False
  with replace_cases [of l "''[x]''" "''[ ]''"] show ?thesis
    by (auto simp: flipped_def)
qed

lemma updateClickedText_line:
  "newline \<notin> set l \<Longrightarrow> updateClickedText now l = flipped now l"
  by (simp add: updateClickedText_def split_no_newline flipped_def)

lemma updateClickedText_lines:
  assumes "newline \<notin> set l"
  shows "updateClickedText now (l @ newline # r) = flipped now l @ newline # r"
proof -
  from assms have sp: "split (l @ newline # r) = l # split r" by (rule split_append_newline)
  have "join (x # split r) = x @ newline # r" for x
    by (simp add: join_Cons split_not_Nil join_split)
  with sp show ?thesis by (simp add: updateClickedText_def flipped_def)
qed

section \<open>The scans\<close>

lemma isWithin_cases: "isWithin cur l \<longleftrightarrow> isPeer cur l \<or> isDeeper cur l"
  by (auto simp: isWithin_def isPeer_def isDeeper_def)

lemma isPeer_not_isDeeper: "isPeer cur l \<Longrightarrow> \<not> isDeeper cur l"
  by (simp add: isPeer_def isDeeper_def)

lemma scanTree_step:
  "scanTree d p j e =
     (if j < length d \<and> isDeeper p (d ! j) then scanTree d p (Suc j) j else e)"
  by (subst scanTree.simps) (auto simp: Let_def isDeeper_def lineCount_def getLine_def)

lemma scanOverall_step:
  "scanOverall d p j e =
     (if j < length d \<and> isWithin p (d ! j) then scanOverall d p (Suc j) j else e)"
  by (subst scanOverall.simps) (auto simp: Let_def isWithin_def lineCount_def getLine_def)

lemma scanDown_step:
  "scanDown d p i e =
     (if i < length d \<and> isWithin p (d ! i)
      then scanDown d p (Suc i) (if isPeer p (d ! i) then i else e) else e)"
  by (subst scanDown.simps)
     (auto simp: Let_def isWithin_def isPeer_def lineCount_def getLine_def)

lemma scanUp_step:
  "scanUp d p (Suc i) b =
     (if isWithin p (d ! i) then scanUp d p i (if isPeer p (d ! i) then i else b) else b)"
  by (auto simp: Let_def isWithin_def isPeer_def getLine_def)

lemma runEnd_unique:
  assumes "runEnd Q d e r" and "runEnd Q d e r'" and "e < length d"
  shows "r = r'"
proof (rule ccontr)
  assume "r \<noteq> r'"
  then consider "r < r'" | "r' < r" by linarith
  then show False
  proof cases
    case 1
    with assms have "Suc r < length d" "Q (d ! Suc r)" "\<not> Q (d ! Suc r)"
      by (auto simp: runEnd_def)
    then show False by simp
  next
    case 2
    with assms have "Suc r' < length d" "Q (d ! Suc r')" "\<not> Q (d ! Suc r')"
      by (auto simp: runEnd_def)
    then show False by simp
  qed
qed

lemma scanTree_runEnd_aux:
  "j = Suc e \<Longrightarrow> runEnd (isDeeper p) d e (scanTree d p j e)"
proof (induction d p j e rule: scanTree.induct)
  case (1 d p j e)
  show ?case
  proof (cases "j < length d \<and> isDeeper p (d ! j)")
    case True
    then have eq: "scanTree d p j e = scanTree d p (Suc j) j"
      by (subst scanTree_step) simp
    from True have "j < lineCount d"
      "\<not> (\<not> listItemRegex (getLine d j) \<or> getIndentationLevel (getLine d j) \<le> p)"
      by (auto simp: lineCount_def getLine_def isDeeper_def)
    then have "runEnd (isDeeper p) d j (scanTree d p (j + 1) j)"
      using "1.IH" by simp
    then have ih: "runEnd (isDeeper p) d j (scanTree d p (Suc j) j)" by simp
    show ?thesis unfolding eq runEnd_def
    proof (intro conjI allI impI)
      from ih "1.prems" show "e \<le> scanTree d p (Suc j) j" by (simp add: runEnd_def)
      from ih True show "scanTree d p (Suc j) j < length d" by (simp add: runEnd_def)
      fix k assume "e < k \<and> k \<le> scanTree d p (Suc j) j"
      with "1.prems" have "k = j \<or> (j < k \<and> k \<le> scanTree d p (Suc j) j)" by auto
      with ih True show "isDeeper p (d ! k)" by (auto simp: runEnd_def)
    next
      assume "Suc (scanTree d p (Suc j) j) < length d"
      with ih show "\<not> isDeeper p (d ! Suc (scanTree d p (Suc j) j))"
        by (simp add: runEnd_def)
    qed
  next
    case False
    then have "scanTree d p j e = e" by (subst scanTree_step) auto
    with False "1.prems" show ?thesis by (auto simp: runEnd_def)
  qed
qed

lemma scanTree_runEnd: "runEnd (isDeeper p) d e (scanTree d p (Suc e) e)"
  by (rule scanTree_runEnd_aux) simp

lemma scanOverall_runEnd_aux:
  "j = Suc e \<Longrightarrow> runEnd (isWithin p) d e (scanOverall d p j e)"
proof (induction d p j e rule: scanOverall.induct)
  case (1 d p j e)
  show ?case
  proof (cases "j < length d \<and> isWithin p (d ! j)")
    case True
    then have eq: "scanOverall d p j e = scanOverall d p (Suc j) j"
      by (subst scanOverall_step) simp
    from True have "j < lineCount d"
      "\<not> (\<not> listItemRegex (getLine d j) \<or> getIndentationLevel (getLine d j) < p)"
      by (auto simp: lineCount_def getLine_def isWithin_def)
    then have "runEnd (isWithin p) d j (scanOverall d p (j + 1) j)"
      using "1.IH" by simp
    then have ih: "runEnd (isWithin p) d j (scanOverall d p (Suc j) j)" by simp
    show ?thesis unfolding eq runEnd_def
    proof (intro conjI allI impI)
      from ih "1.prems" show "e \<le> scanOverall d p (Suc j) j" by (simp add: runEnd_def)
      from ih True show "scanOverall d p (Suc j) j < length d" by (simp add: runEnd_def)
      fix k assume "e < k \<and> k \<le> scanOverall d p (Suc j) j"
      with "1.prems" have "k = j \<or> (j < k \<and> k \<le> scanOverall d p (Suc j) j)" by auto
      with ih True show "isWithin p (d ! k)" by (auto simp: runEnd_def)
    next
      assume "Suc (scanOverall d p (Suc j) j) < length d"
      with ih show "\<not> isWithin p (d ! Suc (scanOverall d p (Suc j) j))"
        by (simp add: runEnd_def)
    qed
  next
    case False
    then have "scanOverall d p j e = e" by (subst scanOverall_step) auto
    with False "1.prems" show ?thesis by (auto simp: runEnd_def)
  qed
qed

lemma scanOverall_runEnd: "runEnd (isWithin p) d e (scanOverall d p (Suc e) e)"
  by (rule scanOverall_runEnd_aux) simp

lemma scanDown_props:
  assumes "e < i"
  shows "e \<le> scanDown d p i e \<and>
         (scanDown d p i e = e \<or>
            (i \<le> scanDown d p i e \<and> scanDown d p i e < length d \<and>
             isPeer p (d ! scanDown d p i e))) \<and>
         (\<forall>k. i \<le> k \<and> k \<le> scanDown d p i e \<longrightarrow> isWithin p (d ! k)) \<and>
         (\<forall>k. scanDown d p i e < k \<and> i \<le> k \<and> k < length d \<and>
              (\<forall>m. i \<le> m \<and> m \<le> k \<longrightarrow> isWithin p (d ! m)) \<longrightarrow> isDeeper p (d ! k))"
  using assms
proof (induction "length d - i" arbitrary: i e rule: less_induct)
  case less
  show ?case
  proof (cases "i < length d \<and> isWithin p (d ! i)")
    case True
    define e' where "e' = (if isPeer p (d ! i) then i else e)"
    define r where "r = scanDown d p (Suc i) e'"
    have eq: "scanDown d p i e = r"
      using True by (subst scanDown_step) (simp add: r_def e'_def)
    have e': "e' < Suc i" "e \<le> e'" using less.prems by (auto simp: e'_def)
    from True have "i < length d" by simp
    then have "length d - Suc i < length d - i" by arith
    from less.hyps [OF this e'(1)]
    have ih1: "e' \<le> r"
      and ih2: "r = e' \<or> (Suc i \<le> r \<and> r < length d \<and> isPeer p (d ! r))"
      and ih3: "\<forall>k. Suc i \<le> k \<and> k \<le> r \<longrightarrow> isWithin p (d ! k)"
      and ih4: "\<forall>k. r < k \<and> Suc i \<le> k \<and> k < length d \<and>
              (\<forall>m. Suc i \<le> m \<and> m \<le> k \<longrightarrow> isWithin p (d ! m)) \<longrightarrow> isDeeper p (d ! k)"
      unfolding r_def by blast+
    have c1: "e \<le> r" using ih1 e'(2) by simp
    have c2: "r = e \<or> (i \<le> r \<and> r < length d \<and> isPeer p (d ! r))"
      using ih2 True by (auto simp: e'_def)
    have c3: "\<forall>k. i \<le> k \<and> k \<le> r \<longrightarrow> isWithin p (d ! k)"
    proof (intro allI impI)
      fix k assume k: "i \<le> k \<and> k \<le> r"
      show "isWithin p (d ! k)"
      proof (cases "k = i")
        case True
        with \<open>i < length d \<and> isWithin p (d ! i)\<close> show ?thesis by simp
      next
        case False
        with k have "Suc i \<le> k \<and> k \<le> r" by simp
        with ih3 show ?thesis by blast
      qed
    qed
    have c4: "\<forall>k. r < k \<and> i \<le> k \<and> k < length d \<and>
              (\<forall>m. i \<le> m \<and> m \<le> k \<longrightarrow> isWithin p (d ! m)) \<longrightarrow> isDeeper p (d ! k)"
    proof (intro allI impI)
      fix k assume k: "r < k \<and> i \<le> k \<and> k < length d \<and>
              (\<forall>m. i \<le> m \<and> m \<le> k \<longrightarrow> isWithin p (d ! m))"
      show "isDeeper p (d ! k)"
      proof (cases "k = i")
        case True
        have "\<not> isPeer p (d ! i)"
        proof
          assume "isPeer p (d ! i)"
          then have "e' = i" by (simp add: e'_def)
          with ih1 k True show False by simp
        qed
        with \<open>i < length d \<and> isWithin p (d ! i)\<close> True show ?thesis
          by (simp add: isWithin_cases)
      next
        case False
        with k have "r < k \<and> Suc i \<le> k \<and> k < length d \<and>
              (\<forall>m. Suc i \<le> m \<and> m \<le> k \<longrightarrow> isWithin p (d ! m))" by simp
        with ih4 show ?thesis by blast
      qed
    qed
    from c1 c2 c3 c4 show ?thesis unfolding eq by blast
  next
    case False
    then have eq: "scanDown d p i e = e" by (subst scanDown_step) auto
    have "\<forall>k. e < k \<and> i \<le> k \<and> k < length d \<and>
              (\<forall>m. i \<le> m \<and> m \<le> k \<longrightarrow> isWithin p (d ! m)) \<longrightarrow> isDeeper p (d ! k)"
    proof (intro allI impI)
      fix k assume k: "e < k \<and> i \<le> k \<and> k < length d \<and>
              (\<forall>m. i \<le> m \<and> m \<le> k \<longrightarrow> isWithin p (d ! m))"
      then have "i < length d" "isWithin p (d ! i)" by auto
      with False show "isDeeper p (d ! k)" by simp
    qed
    with less.prems show ?thesis unfolding eq by auto
  qed
qed

lemma scanUp_props:
  "n \<le> b \<Longrightarrow>
   scanUp d p n b = b \<or>
   (scanUp d p n b < n \<and> isPeer p (d ! scanUp d p n b) \<and>
    (\<forall>k. scanUp d p n b \<le> k \<and> k < n \<longrightarrow> isWithin p (d ! k)))"
proof (induction n arbitrary: b)
  case 0
  show ?case by simp
next
  case (Suc i)
  show ?case
  proof (cases "isWithin p (d ! i)")
    case True
    define b' where "b' = (if isPeer p (d ! i) then i else b)"
    define r where "r = scanUp d p i b'"
    have eq: "scanUp d p (Suc i) b = r"
      using True by (subst scanUp_step) (simp add: r_def b'_def)
    have "i \<le> b'" using Suc.prems by (simp add: b'_def)
    from Suc.IH [OF this]
    have ih: "r = b' \<or> (r < i \<and> isPeer p (d ! r) \<and> (\<forall>k. r \<le> k \<and> k < i \<longrightarrow> isWithin p (d ! k)))"
      by (simp add: r_def)
    have "r = b \<or> (r < Suc i \<and> isPeer p (d ! r) \<and> (\<forall>k. r \<le> k \<and> k < Suc i \<longrightarrow> isWithin p (d ! k)))"
    proof (cases "r = b'")
      case True
      show ?thesis
      proof (cases "isPeer p (d ! i)")
        case True
        with \<open>r = b'\<close> have "r = i" by (simp add: b'_def)
        with True \<open>isWithin p (d ! i)\<close> show ?thesis by (auto simp: less_Suc_eq)
      next
        case False
        with \<open>r = b'\<close> show ?thesis by (simp add: b'_def)
      qed
    next
      case False
      with ih have a: "r < i" "isPeer p (d ! r)" "\<forall>k. r \<le> k \<and> k < i \<longrightarrow> isWithin p (d ! k)"
        by blast+
      with \<open>isWithin p (d ! i)\<close> have "\<forall>k. r \<le> k \<and> k < Suc i \<longrightarrow> isWithin p (d ! k)"
        by (auto simp: less_Suc_eq)
      with a show ?thesis by simp
    qed
    then show ?thesis unfolding eq .
  next
    case False
    then have "scanUp d p (Suc i) b = b" by (subst scanUp_step) simp
    then show ?thesis by simp
  qed
qed

text \<open>The facts about the region around a clicked list item.\<close>

lemma region_facts:
  assumes c: "c < length d" and li: "listItemRegex (d ! c)"
  defines "cur \<equiv> currentIndent d c"
    and "bs \<equiv> blockStartLine d c"
    and "be \<equiv> blockEndLine d c"
    and "oe \<equiv> overallBlockEndLine d c"
  shows "bs \<le> c" and "c \<le> be" and "be \<le> oe" and "oe < length d"
    and "isPeer cur (d ! bs)" and "isPeer cur (d ! be)"
    and "\<forall>k. bs \<le> k \<and> k \<le> oe \<longrightarrow> isWithin cur (d ! k)"
    and "oe = scanTree d cur (Suc be) be"
    and "runEnd (isDeeper cur) d be oe"
proof -
  have pc: "isPeer cur (d ! c)"
    using li by (simp add: isPeer_def cur_def currentIndent_def getLine_def)
  then have wc: "isWithin cur (d ! c)" by (simp add: isWithin_cases)
  have up: "bs = c \<or> (bs < c \<and> isPeer cur (d ! bs) \<and> (\<forall>k. bs \<le> k \<and> k < c \<longrightarrow> isWithin cur (d ! k)))"
    using scanUp_props [of c c d cur] by (simp add: bs_def blockStartLine_def cur_def)
  have down: "c \<le> be"
    "be = c \<or> (Suc c \<le> be \<and> be < length d \<and> isPeer cur (d ! be))"
    "\<forall>k. Suc c \<le> k \<and> k \<le> be \<longrightarrow> isWithin cur (d ! k)"
    "\<forall>k. be < k \<and> Suc c \<le> k \<and> k < length d \<and>
              (\<forall>m. Suc c \<le> m \<and> m \<le> k \<longrightarrow> isWithin cur (d ! m)) \<longrightarrow> isDeeper cur (d ! k)"
    using scanDown_props [of c "Suc c" d cur]
    by (simp_all add: be_def blockEndLine_def cur_def)
  have ov: "runEnd (isWithin cur) d be oe"
    using scanOverall_runEnd [of cur d be]
    by (simp add: oe_def overallBlockEndLine_def be_def cur_def)
  show 1: "bs \<le> c" using up by auto
  show 2: "c \<le> be" by (rule down(1))
  have belt: "be < length d" using down(2) c by auto
  show 3: "be \<le> oe" using ov by (simp add: runEnd_def)
  show 4: "oe < length d" using ov belt by (simp add: runEnd_def)
  show "isPeer cur (d ! bs)" using up pc by auto
  show "isPeer cur (d ! be)" using down(2) pc by auto
  show 7: "\<forall>k. bs \<le> k \<and> k \<le> oe \<longrightarrow> isWithin cur (d ! k)"
  proof (intro allI impI)
    fix k assume k: "bs \<le> k \<and> k \<le> oe"
    consider "k < c" | "k = c" | "c < k" "k \<le> be" | "be < k" by linarith
    then show "isWithin cur (d ! k)"
    proof cases
      case 1 with up k show ?thesis by auto
    next
      case 2 with wc show ?thesis by simp
    next
      case 3 with down(3) show ?thesis by auto
    next
      case 4 with ov k show ?thesis by (auto simp: runEnd_def)
    qed
  qed
  have deep: "\<forall>k. be < k \<and> k \<le> oe \<longrightarrow> isDeeper cur (d ! k)"
  proof (intro allI impI)
    fix k assume k: "be < k \<and> k \<le> oe"
    have "\<forall>m. Suc c \<le> m \<and> m \<le> k \<longrightarrow> isWithin cur (d ! m)"
      using 7 1 k by auto
    moreover have "be < k \<and> Suc c \<le> k \<and> k < length d" using k 2 4 by auto
    ultimately show "isDeeper cur (d ! k)" using down(4) by blast
  qed
  show 9: "runEnd (isDeeper cur) d be oe"
    using ov deep by (auto simp: runEnd_def isWithin_cases)
  show "oe = scanTree d cur (Suc be) be"
    using runEnd_unique [OF 9 scanTree_runEnd belt] .
qed

section \<open>The loop over the peers\<close>

lemma buildTreeText_eq:
  "buildTreeText d k e t = t @ concat (map (lineWithBreak d) [k..<Suc e])"
proof (induction "Suc e - k" arbitrary: k t rule: less_induct)
  case less
  show ?case
  proof (cases "k \<le> e")
    case True
    then have "Suc e - Suc k < Suc e - k" by arith
    from less.hyps [OF this]
    have ih: "buildTreeText d (Suc k) e t' = t' @ concat (map (lineWithBreak d) [Suc k..<Suc e])" for t'
      by simp
    from True have "[k..<Suc e] = k # [Suc k..<Suc e]" by (simp add: upt_rec)
    with True ih show ?thesis
      by (subst buildTreeText.simps) (simp add: lineWithBreak_def)
  next
    case False
    then show ?thesis by (subst buildTreeText.simps) simp
  qed
qed

lemma peersLoop_done:
  "be < i \<Longrightarrow> peersLoop d c cur now be i (un, ti) = (un, ti)"
  by (subst peersLoop.simps) simp

lemma peersLoop_peer:
  assumes "i \<le> be" and "isPeer cur (d ! i)"
  shows "peersLoop d c cur now be i (un, ti) =
         peersLoop d c cur now be (Suc (scanTree d cur (Suc i) i))
           (if treeTicked d c now (i, scanTree d cur (Suc i) i)
            then (un, ti @ [treeItem d c now (i, scanTree d cur (Suc i) i)])
            else (un @ [treeItem d c now (i, scanTree d cur (Suc i) i)], ti))"
proof -
  from assms(2) have a: "listItemRegex (getLine d i)" "getIndentationLevel (getLine d i) = cur"
    by (simp_all add: isPeer_def getLine_def)
  show ?thesis
    using assms(1) a
    by (subst peersLoop.simps)
       (simp add: Let_def treeTicked_def treeItem_def treeText_def treeLines_def buildTreeText_eq)
qed

lemma peersLoop_trees:
  assumes "be < length d"
    and "i \<le> be \<longrightarrow> isPeer cur (d ! i)"
    and "\<forall>k. i \<le> k \<and> k \<le> be \<longrightarrow> isWithin cur (d ! k)"
    and "isPeer cur (d ! be)"
  shows "\<exists>ts. peersLoop d c cur now be i (un, ti) =
           (un @ map (treeItem d c now) (filter (\<lambda>t. \<not> treeTicked d c now t) ts),
            ti @ map (treeItem d c now) (filter (treeTicked d c now) ts)) \<and>
         concat (map treeLines ts) =
           (if i \<le> be then [i..<Suc (scanTree d cur (Suc be) be)] else []) \<and>
         (\<forall>t\<in>set ts. isPeer cur (d ! fst t) \<and> snd t = scanTree d cur (Suc (fst t)) (fst t) \<and>
                     i \<le> fst t \<and> fst t \<le> be)"
  using assms(2,3)
proof (induction "Suc be - i" arbitrary: i un ti rule: less_induct)
  case less
  show ?case
  proof (cases "i \<le> be")
    case False
    then have "peersLoop d c cur now be i (un, ti) = (un, ti)" by (simp add: peersLoop_done)
    with False show ?thesis by (intro exI [of _ "[]"]) simp
  next
    case True
    with less.prems have pi: "isPeer cur (d ! i)" by simp
    define e where "e = scanTree d cur (Suc i) i"
    define acc where "acc = (if treeTicked d c now (i, e)
            then (un, ti @ [treeItem d c now (i, e)])
            else (un @ [treeItem d c now (i, e)], ti))"
    have step: "peersLoop d c cur now be i (un, ti) = peersLoop d c cur now be (Suc e) acc"
      using peersLoop_peer [OF True pi] by (simp add: e_def acc_def)
    have run: "runEnd (isDeeper cur) d i e" unfolding e_def by (rule scanTree_runEnd)
    then have ie: "i \<le> e" and el: "e < length d"
      and deep: "\<forall>k. i < k \<and> k \<le> e \<longrightarrow> isDeeper cur (d ! k)"
      and stop: "Suc e < length d \<longrightarrow> \<not> isDeeper cur (d ! Suc e)"
      using True assms(1) by (auto simp: runEnd_def)
    have less1: "Suc be - Suc e < Suc be - i" using True ie by arith
    have p1: "Suc e \<le> be \<longrightarrow> isPeer cur (d ! Suc e)"
    proof
      assume a: "Suc e \<le> be"
      with ie less.prems(2) have "isWithin cur (d ! Suc e)" by simp
      moreover from a assms(1) stop have "\<not> isDeeper cur (d ! Suc e)" by simp
      ultimately show "isPeer cur (d ! Suc e)" by (simp add: isWithin_cases)
    qed
    have p2: "\<forall>k. Suc e \<le> k \<and> k \<le> be \<longrightarrow> isWithin cur (d ! k)"
      using less.prems(2) ie by simp
    obtain un' ti' where acc_eq: "acc = (un', ti')" by (cases acc)
    from less.hyps [OF less1 p1 p2, of un' ti']
    obtain ts where ts:
      "peersLoop d c cur now be (Suc e) (un', ti') =
           (un' @ map (treeItem d c now) (filter (\<lambda>t. \<not> treeTicked d c now t) ts),
            ti' @ map (treeItem d c now) (filter (treeTicked d c now) ts))"
      "concat (map treeLines ts) =
           (if Suc e \<le> be then [Suc e..<Suc (scanTree d cur (Suc be) be)] else [])"
      "\<forall>t\<in>set ts. isPeer cur (d ! fst t) \<and> snd t = scanTree d cur (Suc (fst t)) (fst t) \<and>
                     Suc e \<le> fst t \<and> fst t \<le> be"
      by blast
    let ?ts = "(i, e) # ts"
    have r1: "peersLoop d c cur now be i (un, ti) =
           (un @ map (treeItem d c now) (filter (\<lambda>t. \<not> treeTicked d c now t) ?ts),
            ti @ map (treeItem d c now) (filter (treeTicked d c now) ?ts))"
      using step ts(1) acc_eq by (auto simp: acc_def split: if_splits)
    have runbe: "runEnd (isDeeper cur) d be (scanTree d cur (Suc be) be)"
      by (rule scanTree_runEnd)
    have r2: "concat (map treeLines ?ts) = [i..<Suc (scanTree d cur (Suc be) be)]"
    proof (cases "Suc e \<le> be")
      case True
      with runbe have "Suc e \<le> Suc (scanTree d cur (Suc be) be)" by (simp add: runEnd_def)
      with ie have "[i..<Suc (scanTree d cur (Suc be) be)] =
          [i..<Suc e] @ [Suc e..<Suc (scanTree d cur (Suc be) be)]"
        by (metis le_Suc_eq le_add_diff_inverse upt_add_eq_append)
      with True ts(2) show ?thesis by (simp add: treeLines_def)
    next
      case False
      have "be = i"
      proof (rule ccontr)
        assume "be \<noteq> i"
        with \<open>i \<le> be\<close> False have "i < be \<and> be \<le> e" by simp
        with deep have "isDeeper cur (d ! be)" by blast
        with assms(4) show False by (simp add: isPeer_not_isDeeper)
      qed
      then have "scanTree d cur (Suc be) be = e" by (simp add: e_def)
      with False ts(2) show ?thesis by (simp add: treeLines_def)
    qed
    have r3: "\<forall>t\<in>set ?ts. isPeer cur (d ! fst t) \<and> snd t = scanTree d cur (Suc (fst t)) (fst t) \<and>
                     i \<le> fst t \<and> fst t \<le> be"
      using ts(3) pi True ie by (auto simp: e_def)
    from r1 r2 r3 True show ?thesis by (intro exI [of _ ?ts]) simp
  qed
qed

lemma newLineWithBreak_other: "k \<noteq> c \<Longrightarrow> newLineWithBreak d c k = lineWithBreak d k"
  by (simp add: newLineWithBreak_def lineWithBreak_def)

lemma treeText_lines:
  assumes "isPeer cur (d ! c)" and "newline \<notin> set (d ! c)"
    and "isPeer cur (d ! fst t)" and "snd t = scanTree d cur (Suc (fst t)) (fst t)"
    and "fst t < length d"
  shows "treeText d c (isNowTicked d c) t = concat (map (newLineWithBreak d c) (treeLines t))"
proof -
  obtain s e where t: "t = (s, e)" by (cases t)
  have run: "runEnd (isDeeper cur) d s e"
    using assms(4) scanTree_runEnd [of cur d s] by (simp add: t)
  with assms(5) have se: "s \<le> e" and el: "e < length d"
    and deep: "\<forall>k. s < k \<and> k \<le> e \<longrightarrow> isDeeper cur (d ! k)"
    by (auto simp: runEnd_def t)
  have notc: "k \<noteq> c" if "s < k" "k \<le> e" for k
    using deep that assms(1) isPeer_not_isDeeper by blast
  define rest where "rest = [Suc s..<Suc e]"
  have lines: "treeLines (s, e) = s # rest"
    using se by (simp add: treeLines_def upt_rec rest_def)
  have rest: "map (newLineWithBreak d c) rest = map (lineWithBreak d) rest"
    unfolding rest_def using notc by (intro map_cong) (auto simp: newLineWithBreak_other)
  show ?thesis
  proof (cases "s = c")
    case False
    then show ?thesis
      by (simp add: treeText_def t lines rest newLineWithBreak_other)
  next
    case True
    with lines have linesc: "treeLines (c, e) = c # rest" by simp
    show ?thesis
    proof (cases "c + 1 = lineCount d")
      case e: True
      with el se True have "e = c" by (simp add: lineCount_def)
      then have "rest = []" using True by (simp add: rest_def)
      with True e assms(2) show ?thesis
        by (simp add: treeText_def t linesc lineWithBreak_def newLineWithBreak_def
            getLine_def updateClickedText_line)
    next
      case False
      with True assms(2) show ?thesis
        by (simp add: treeText_def t linesc rest lineWithBreak_def newLineWithBreak_def
            getLine_def updateClickedText_lines)
    qed
  qed
qed

lemma concat_map_concat:
  "concat (map (\<lambda>t. concat (map f (g t))) xs) = concat (map f (concat (map g xs)))"
  by (induction xs) simp_all

lemma mset_concat_partition:
  "mset (concat (map f (filter (\<lambda>t. \<not> P t) ts)) @ concat (map f (filter P ts))) =
   mset (concat (map f ts))"
  by (induction ts) auto

text \<open>
  The text that the loop over the peers builds: the lines of the region with their line
  breaks, the clicked line with its new marker, the trees of the unticked peers before
  those of the ticked ones.
\<close>

lemma finalBlockText_lines:
  assumes c: "c < length d" and li: "listItemRegex (d ! c)" and nl: "newline \<notin> set (d ! c)"
  shows "\<exists>ts. finalBlockText d c =
            concat (map (newLineWithBreak d c)
              (concat (map treeLines (filter (\<lambda>t. \<not> treeTicked d c (isNowTicked d c) t) ts)) @
               concat (map treeLines (filter (treeTicked d c (isNowTicked d c)) ts)))) \<and>
          concat (map treeLines ts) = [blockStartLine d c..<Suc (overallBlockEndLine d c)] \<and>
          (\<forall>t\<in>set ts. isPeer (currentIndent d c) (d ! fst t) \<and>
             snd t = scanTree d (currentIndent d c) (Suc (fst t)) (fst t))"
proof -
  let ?cur = "currentIndent d c" and ?bs = "blockStartLine d c"
  let ?be = "blockEndLine d c" and ?oe = "overallBlockEndLine d c"
  let ?now = "isNowTicked d c"
  note rf = region_facts [OF c li]
  have pc: "isPeer ?cur (d ! c)"
    using li by (simp add: isPeer_def currentIndent_def getLine_def)
  have bsbe: "?bs \<le> ?be" using rf(1,2) by simp
  have belt: "?be < length d" using rf(3,4) by simp
  have w: "\<forall>k. ?bs \<le> k \<and> k \<le> ?be \<longrightarrow> isWithin ?cur (d ! k)"
    using rf(7) rf(3) by auto
  from peersLoop_trees [OF belt _ w rf(6), of c ?now "[]" "[]"] rf(5)
  obtain ts where ts:
    "peersLoop d c ?cur ?now ?be ?bs ([], []) =
       (map (treeItem d c ?now) (filter (\<lambda>t. \<not> treeTicked d c ?now t) ts),
        map (treeItem d c ?now) (filter (treeTicked d c ?now) ts))"
    "concat (map treeLines ts) = (if ?bs \<le> ?be then [?bs..<Suc (scanTree d ?cur (Suc ?be) ?be)] else [])"
    "\<forall>t\<in>set ts. isPeer ?cur (d ! fst t) \<and> snd t = scanTree d ?cur (Suc (fst t)) (fst t) \<and>
                     ?bs \<le> fst t \<and> fst t \<le> ?be"
    by auto
  have item_text: "itemText (treeItem d c ?now t) = concat (map (newLineWithBreak d c) (treeLines t))"
    if "t \<in> set ts" for t
  proof -
    from ts(3) that belt have "isPeer ?cur (d ! fst t)"
      "snd t = scanTree d ?cur (Suc (fst t)) (fst t)" "fst t < length d" by auto
    from treeText_lines [OF pc nl this] show ?thesis by (simp add: treeItem_def)
  qed
  have texts: "concat (map itemText (map (treeItem d c ?now) (filter Q ts))) =
        concat (map (newLineWithBreak d c) (concat (map treeLines (filter Q ts))))" for Q
  proof -
    have "map itemText (map (treeItem d c ?now) (filter Q ts)) =
          map (\<lambda>t. concat (map (newLineWithBreak d c) (treeLines t))) (filter Q ts)"
      unfolding map_map by (rule map_cong) (use item_text in auto)
    then show ?thesis by (simp only: concat_map_concat)
  qed
  have "finalBlockText d c =
      concat (map (newLineWithBreak d c)
              (concat (map treeLines (filter (\<lambda>t. \<not> treeTicked d c ?now t) ts)) @
               concat (map treeLines (filter (treeTicked d c ?now) ts))))"
    unfolding finalBlockText_def peerItems_def ts(1) using texts by simp
  moreover have "concat (map treeLines ts) = [?bs..<Suc ?oe]"
    using ts(2) bsbe rf(8) by simp
  ultimately show ?thesis using ts(3) by blast
qed

section \<open>The text of the document and the range\<close>

lemma join_lines_aux:
  "join ls = concat (map (\<lambda>k. ls ! k @ (if Suc k = length ls then [] else [newline])) [0..<length ls])"
proof (induction ls rule: join.induct)
  case 1
  show ?case by simp
next
  case (2 l)
  show ?case by simp
next
  case (3 l m ls)
  let ?f = "\<lambda>xs k. xs ! k @ (if Suc k = length xs then [] else [newline])"
  have "[0..<length (l # m # ls)] = 0 # map Suc [0..<length (m # ls)]"
    by (simp only: map_Suc_upt) (simp add: upt_rec)
  then have "concat (map (?f (l # m # ls)) [0..<length (l # m # ls)]) =
        ?f (l # m # ls) 0 @ concat (map (?f (l # m # ls) \<circ> Suc) [0..<length (m # ls)])"
    by (simp only: list.map concat.simps map_map)
  also have "map (?f (l # m # ls) \<circ> Suc) [0..<length (m # ls)] = map (?f (m # ls)) [0..<length (m # ls)]"
    by (rule map_cong) auto
  also have "?f (l # m # ls) 0 = l @ [newline]" by simp
  finally show ?case using 3 by simp
qed

lemma join_lines: "join d = concat (map (lineWithBreak d) [0..<length d])"
proof -
  have "lineWithBreak d = (\<lambda>k. d ! k @ (if Suc k = length d then [] else [newline]))"
    by (rule ext) (simp add: lineWithBreak_def getLine_def lineCount_def)
  with join_lines_aux [of d] show ?thesis by simp
qed

lemma take_breaks:
  assumes "n < length d"
  shows "concat (map (\<lambda>l. l @ [newline]) (take n d)) = concat (map (lineWithBreak d) [0..<n])"
proof -
  have "map (\<lambda>l. l @ [newline]) (take n d) = map (lineWithBreak d) [0..<n]"
    using assms
    by (auto simp: list_eq_iff_nth_eq lineWithBreak_def getLine_def lineCount_def)
  then show ?thesis by simp
qed

lemma posToOffset_line_start:
  "n < length d \<Longrightarrow>
   posToOffset d \<lparr>line = n, ch = 0\<rparr> = length (concat (map (lineWithBreak d) [0..<n]))"
  by (simp add: posToOffset_def take_breaks)

lemma posToOffset_last_line_end:
  assumes "Suc n = length d"
  shows "posToOffset d \<lparr>line = n, ch = length (getLine d n)\<rparr> =
         length (concat (map (lineWithBreak d) [0..<Suc n]))"
proof -
  from assms have "n < length d" by simp
  then have "posToOffset d \<lparr>line = n, ch = length (getLine d n)\<rparr> =
      length (concat (map (lineWithBreak d) [0..<n])) + length (getLine d n)"
    by (simp add: posToOffset_def take_breaks)
  moreover from assms have "lineWithBreak d n = getLine d n"
    by (simp add: lineWithBreak_def lineCount_def)
  ultimately show ?thesis by simp
qed

text \<open>The offsets of the range to replace, and the three parts of the text of the document.\<close>

lemma range_offsets:
  assumes c: "c < length d" and li: "listItemRegex (d ! c)"
  shows "posToOffset d (deleteFrom d c) =
           length (concat (map (lineWithBreak d) [0..<blockStartLine d c]))"
    and "posToOffset d (deleteTo d c) =
           length (concat (map (lineWithBreak d) [0..<blockStartLine d c])) +
           length (concat (map (lineWithBreak d) [blockStartLine d c..<Suc (overallBlockEndLine d c)]))"
    and "join d =
           concat (map (lineWithBreak d) [0..<blockStartLine d c]) @
           concat (map (lineWithBreak d) [blockStartLine d c..<Suc (overallBlockEndLine d c)]) @
           concat (map (lineWithBreak d) [Suc (overallBlockEndLine d c)..<length d])"
proof -
  let ?bs = "blockStartLine d c" and ?oe = "overallBlockEndLine d c"
  note rf = region_facts [OF c li]
  have le: "?bs \<le> Suc ?oe" "Suc ?oe \<le> length d" "?bs < length d"
    using rf(1-4) by auto
  have split1: "[0..<Suc ?oe] = [0..<?bs] @ [?bs..<Suc ?oe]"
    using le(1) by (metis le_add_diff_inverse upt_add_eq_append zero_le)
  have split2: "[0..<length d] = [0..<Suc ?oe] @ [Suc ?oe..<length d]"
    using le(2) by (metis le_add_diff_inverse upt_add_eq_append zero_le)
  show "posToOffset d (deleteFrom d c) = length (concat (map (lineWithBreak d) [0..<?bs]))"
    using le(3) by (simp add: deleteFrom_def posToOffset_line_start)
  have "posToOffset d (deleteTo d c) = length (concat (map (lineWithBreak d) [0..<Suc ?oe]))"
  proof (cases "Suc ?oe = length d")
    case True
    then show ?thesis
      using posToOffset_last_line_end [OF True]
      by (simp add: deleteTo_def Let_def lineCount_def)
  next
    case False
    with le(2) have "Suc ?oe < length d" by simp
    with False show ?thesis
      using posToOffset_line_start [of "Suc ?oe" d]
      by (simp add: deleteTo_def Let_def lineCount_def)
  qed
  then show "posToOffset d (deleteTo d c) =
           length (concat (map (lineWithBreak d) [0..<?bs])) +
           length (concat (map (lineWithBreak d) [?bs..<Suc ?oe]))"
    by (simp only: split1 map_append concat_append length_append)
  show "join d =
           concat (map (lineWithBreak d) [0..<?bs]) @
           concat (map (lineWithBreak d) [?bs..<Suc ?oe]) @
           concat (map (lineWithBreak d) [Suc ?oe..<length d])"
    unfolding join_lines by (subst split2, subst split1) simp
qed

lemma originalBlockText_lines:
  assumes c: "c < length d" and li: "listItemRegex (d ! c)"
  shows "originalBlockText d c =
         concat (map (lineWithBreak d) [blockStartLine d c..<Suc (overallBlockEndLine d c)])"
  unfolding originalBlockText_def getRange_def
    range_offsets(1) [OF c li] range_offsets(2) [OF c li]
  by (subst range_offsets(3) [OF c li]) simp

lemma transaction_lines:
  assumes c: "c < length d" and li: "listItemRegex (d ! c)"
  shows "transaction d (deleteFrom d c) (deleteTo d c) t =
         split (concat (map (lineWithBreak d) [0..<blockStartLine d c]) @ t @
                concat (map (lineWithBreak d) [Suc (overallBlockEndLine d c)..<length d]))"
  unfolding transaction_def range_offsets(1) [OF c li] range_offsets(2) [OF c li]
  by (subst (1 2) range_offsets(3) [OF c li]) simp

section \<open>Trimmed texts\<close>

lemma trim_ltrim_rtrim: "trim s = rtrim (ltrim s)"
  by (simp add: trim_def ltrim_def rtrim_def)

lemma listItemRegex_solid:
  assumes "listItemRegex l" shows "solid l"
proof -
  from assms obtain b w r where dw: "dropWhile isWhiteSpace l = b # w # r" and b: "isBullet b"
    by (auto simp: listItemRegex_def split: list.splits)
  from dw have "b \<in> set (dropWhile isWhiteSpace l)" by simp
  then have "b \<in> set l" by (rule set_dropWhileD)
  moreover from b have "\<not> isWhiteSpace b" by (auto simp: isBullet_def isWhiteSpace_def)
  ultimately show ?thesis unfolding solid_def by blast
qed

lemma solid_not_Nil: "solid l \<Longrightarrow> l \<noteq> []"
  by (auto simp: solid_def)

lemma solid_ltrim: "solid l \<Longrightarrow> solid (ltrim l)"
proof -
  assume "solid l"
  then obtain x where x: "x \<in> set l" "\<not> isWhiteSpace x" by (auto simp: solid_def)
  have "l = takeWhile isWhiteSpace l @ dropWhile isWhiteSpace l" by simp
  then have "set l = set (takeWhile isWhiteSpace l) \<union> set (dropWhile isWhiteSpace l)"
    by (metis set_append)
  moreover have "x \<notin> set (takeWhile isWhiteSpace l)"
    using x(2) by (auto dest: set_takeWhileD)
  ultimately have "x \<in> set (dropWhile isWhiteSpace l)" using x(1) by blast
  with x(2) show ?thesis by (auto simp: solid_def ltrim_def)
qed

lemma solid_rev: "solid (rev l) = solid l"
  by (simp add: solid_def)

lemma ltrim_append: "solid a \<Longrightarrow> ltrim (a @ b) = ltrim a @ b"
  unfolding solid_def ltrim_def by (auto intro: dropWhile_append1)

lemma rtrim_append: "solid b \<Longrightarrow> rtrim (a @ b) = a @ rtrim b"
proof -
  assume "solid b"
  then have "solid (rev b)" by (simp add: solid_rev)
  then have "ltrim (rev b @ rev a) = ltrim (rev b) @ rev a" by (rule ltrim_append)
  then show ?thesis by (simp add: rtrim_def ltrim_def)
qed

lemma set_ltrim: "set (ltrim l) \<subseteq> set l"
  by (auto simp: ltrim_def dest: set_dropWhileD)

lemma set_rtrim: "set (rtrim l) \<subseteq> set l"
  by (auto simp: rtrim_def dest: set_dropWhileD)

lemma both_trims:
  assumes "solid x" and "ltrim x = ltrim y" and "rtrim x = rtrim y"
  shows "x = y"
proof -
  let ?b = "ltrim x"
  have sb: "solid ?b" using assms(1) by (rule solid_ltrim)
  have x: "x = takeWhile isWhiteSpace x @ ?b" by (simp add: ltrim_def)
  have y: "y = takeWhile isWhiteSpace y @ ?b" by (simp add: assms(2)) (simp add: ltrim_def)
  have "rtrim x = takeWhile isWhiteSpace x @ rtrim ?b"
    using rtrim_append [OF sb, of "takeWhile isWhiteSpace x"] x by simp
  moreover have "rtrim y = takeWhile isWhiteSpace y @ rtrim ?b"
    using rtrim_append [OF sb, of "takeWhile isWhiteSpace y"] y by simp
  ultimately have "takeWhile isWhiteSpace x = takeWhile isWhiteSpace y"
    using assms(3) by simp
  with x y show ?thesis by metis
qed

lemma join_snoc: "join (ls @ [l]) = unlines ls @ l"
proof (induction ls)
  case Nil
  show ?case by (simp add: unlines_def)
next
  case (Cons a ls)
  have "join (a # (ls @ [l])) = a @ newline # join (ls @ [l])"
    by (rule join_Cons) simp
  with Cons show ?case by (simp add: unlines_def)
qed

lemma unlines_join: "ls \<noteq> [] \<Longrightarrow> unlines ls = join ls @ [newline]"
proof -
  assume "ls \<noteq> []"
  then obtain ms l where "ls = ms @ [l]" by (metis rev_exhaust)
  then show ?thesis by (simp add: join_snoc) (simp add: unlines_def)
qed

lemma ltrim_join: "solid n \<Longrightarrow> ltrim (join (n # ns)) = join (ltrim n # ns)"
  by (cases ns) (simp_all add: ltrim_append)

lemma rtrim_join: "solid n \<Longrightarrow> rtrim (join (ns @ [n])) = join (ns @ [rtrim n])"
  by (simp add: join_snoc rtrim_append)

text \<open>
  Trimming the text of several lines trims the first line on the left and the last line
  on the right.
\<close>

lemma trim_join:
  assumes "solid n" and "solid m"
  shows "trim (join (n # ns @ [m])) = join (ltrim n # ns @ [rtrim m])"
proof -
  have "ltrim (join (n # ns @ [m])) = join (ltrim n # ns @ [m])"
    using assms(1) by (rule ltrim_join)
  moreover have "rtrim (join ((ltrim n # ns) @ [m])) = join ((ltrim n # ns) @ [rtrim m])"
    using assms(2) by (rule rtrim_join)
  ultimately show ?thesis by (simp add: trim_ltrim_rtrim)
qed

lemma trim_unlines: "ls \<noteq> [] \<Longrightarrow> trim (unlines ls) = trim (join ls)"
  by (simp add: unlines_join trim_snoc isWhiteSpace_newline)

text \<open>
  Two lists of solid lines with the same lines, in any order, whose texts are equal after
  trimming, are equal.
\<close>

lemma pair_mset_eq: "{#a, b#} = {#c, d#} \<Longrightarrow> (a = c \<and> b = d) \<or> (a = d \<and> b = c)"
  by (auto simp: add_eq_conv_diff split: if_splits)

lemma same_lines_same_trim:
  assumes so: "\<forall>l\<in>set N. solid l \<and> newline \<notin> set l"
    and ms: "mset N = mset R"
    and tr: "trim (join N) = trim (join R)"
  shows "N = R"
proof -
  have len: "length N = length R" using ms by (rule mset_eq_length)
  from ms have "set N = set R" by (rule mset_eq_setD)
  with so have so': "\<forall>l\<in>set R. solid l \<and> newline \<notin> set l" by simp
  show ?thesis
  proof (cases N)
    case Nil
    with len show ?thesis by simp
  next
    case (Cons n0 N1)
    then obtain r0 R1 where R: "R = r0 # R1" using len by (cases R) auto
    show ?thesis
    proof (cases "N1 = []")
      case True
      with Cons R len ms show ?thesis by simp
    next
      case False
      then obtain Nm nl where N1: "N1 = Nm @ [nl]" by (metis rev_exhaust)
      from False len Cons R have "R1 \<noteq> []" by auto
      then obtain Rm rl where R1: "R1 = Rm @ [rl]" by (metis rev_exhaust)
      have sN: "solid n0" "solid nl" using so Cons N1 by auto
      have sR: "solid r0" "solid rl" using so' R R1 by auto
      have tN: "trim (join N) = join (ltrim n0 # Nm @ [rtrim nl])"
        unfolding Cons N1 using sN by (rule trim_join)
      have tR: "trim (join R) = join (ltrim r0 # Rm @ [rtrim rl])"
        unfolding R R1 using sR by (rule trim_join)
      have fN: "\<forall>l\<in>set (ltrim n0 # Nm @ [rtrim nl]). newline \<notin> set l"
        using so Cons N1 set_ltrim [of n0] set_rtrim [of nl] by auto
      have fR: "\<forall>l\<in>set (ltrim r0 # Rm @ [rtrim rl]). newline \<notin> set l"
        using so' R R1 set_ltrim [of r0] set_rtrim [of rl] by auto
      have spN: "split (join (ltrim n0 # Nm @ [rtrim nl])) = ltrim n0 # Nm @ [rtrim nl]"
        using fN by (intro split_join) simp_all
      have spR: "split (join (ltrim r0 # Rm @ [rtrim rl])) = ltrim r0 # Rm @ [rtrim rl]"
        using fR by (intro split_join) simp_all
      have "join (ltrim n0 # Nm @ [rtrim nl]) = join (ltrim r0 # Rm @ [rtrim rl])"
        using tr unfolding tN tR .
      then have "split (join (ltrim n0 # Nm @ [rtrim nl])) = split (join (ltrim r0 # Rm @ [rtrim rl]))"
        by (rule arg_cong)
      then have "ltrim n0 # Nm @ [rtrim nl] = ltrim r0 # Rm @ [rtrim rl]"
        unfolding spN spR .
      then have eqs: "ltrim n0 = ltrim r0" "Nm = Rm" "rtrim nl = rtrim rl" by simp_all
      from ms have "{#n0, nl#} + mset Rm = {#r0, rl#} + mset Rm"
        unfolding Cons N1 R R1 eqs(2) by simp
      then have "{#n0, nl#} = {#r0, rl#}"
        by (simp only: add_right_cancel)
      then have "(n0 = r0 \<and> nl = rl) \<or> (n0 = rl \<and> nl = r0)"
        by (rule pair_mset_eq)
      then show ?thesis
      proof
        assume "n0 = r0 \<and> nl = rl"
        then show ?thesis by (simp add: Cons N1 R R1 eqs(2))
      next
        assume sw: "n0 = rl \<and> nl = r0"
        with eqs have "ltrim r0 = ltrim rl" "rtrim r0 = rtrim rl" by simp_all
        with sR(1) have "r0 = rl" by (rule both_trims)
        with sw show ?thesis by (simp add: Cons N1 R R1 eqs(2))
      qed
    qed
  qed
qed

lemma lineWithBreak_inner: "Suc k < length d \<Longrightarrow> lineWithBreak d k = d ! k @ [newline]"
  by (simp add: lineWithBreak_def getLine_def lineCount_def)

lemma lineWithBreak_last: "Suc k = length d \<Longrightarrow> lineWithBreak d k = d ! k"
  by (simp add: lineWithBreak_def getLine_def lineCount_def)

lemma concat_inner_lines:
  "\<forall>k\<in>set ks. Suc k < length d \<Longrightarrow>
   concat (map (lineWithBreak d) ks) = unlines (map ((!) d) ks)"
  by (induction ks) (simp_all add: unlines_def lineWithBreak_inner)

lemma concat_lines_to_end:
  assumes "\<forall>k\<in>set ks. Suc k < length d" and "Suc k = length d"
  shows "concat (map (lineWithBreak d) (ks @ [k])) = join (map ((!) d) (ks @ [k]))"
  using assms by (simp add: concat_inner_lines lineWithBreak_last join_snoc)

lemma breaks_append: "breaks (a @ b) = breaks a + breaks b"
  by (simp add: breaks_def)

lemma breaks_no_newline: "newline \<notin> set l \<Longrightarrow> breaks l = 0"
  by (induction l) (auto simp: breaks_def)

lemma breaks_unlines: "\<forall>l\<in>set ls. newline \<notin> set l \<Longrightarrow> breaks (unlines ls) = length ls"
  by (induction ls) (simp_all add: unlines_def breaks_append breaks_no_newline, simp add: breaks_def)

lemma breaks_join:
  assumes "\<forall>l\<in>set ls. newline \<notin> set l" and "ls \<noteq> []"
  shows "Suc (breaks (join ls)) = length ls"
proof -
  have "breaks (unlines ls) = breaks (join ls) + 1"
    using assms(2) by (simp add: unlines_join breaks_append) (simp add: breaks_def)
  with breaks_unlines [OF assms(1)] show ?thesis by simp
qed

lemma filter_dropWhile_le: "length (filter P (dropWhile Q s)) \<le> length (filter P s)"
  by (induction s) auto

lemma breaks_trim_le: "breaks (trim s) \<le> breaks s"
proof -
  have "breaks (trim s) = length (filter ((=) newline) (dropWhile isWhiteSpace (rev (dropWhile isWhiteSpace s))))"
    by (simp add: breaks_def trim_def rev_filter [symmetric])
  also have "\<dots> \<le> length (filter ((=) newline) (rev (dropWhile isWhiteSpace s)))"
    by (rule filter_dropWhile_le)
  also have "\<dots> = length (filter ((=) newline) (dropWhile isWhiteSpace s))"
    by (simp add: rev_filter [symmetric])
  also have "\<dots> \<le> breaks s" unfolding breaks_def by (rule filter_dropWhile_le)
  finally show ?thesis .
qed

lemma breaks_trim_join:
  assumes "\<forall>l\<in>set ls. solid l \<and> newline \<notin> set l" and "2 \<le> length ls"
  shows "Suc (breaks (trim (join ls))) = length ls"
proof -
  from assms(2) obtain n ls1 where ls: "ls = n # ls1" and "ls1 \<noteq> []"
    by (cases ls) (auto simp: Suc_le_eq)
  then obtain ns m where ls1: "ls1 = ns @ [m]" by (metis rev_exhaust)
  have s: "solid n" "solid m" using assms(1) ls ls1 by auto
  have t: "trim (join ls) = join (ltrim n # ns @ [rtrim m])"
    unfolding ls ls1 using s by (rule trim_join)
  have "\<forall>l\<in>set (ltrim n # ns @ [rtrim m]). newline \<notin> set l"
    using assms(1) ls ls1 set_ltrim [of n] set_rtrim [of m] by auto
  then have "Suc (breaks (join (ltrim n # ns @ [rtrim m]))) = length (ltrim n # ns @ [rtrim m])"
    by (rule breaks_join) simp
  then show ?thesis unfolding t by (simp add: ls ls1)
qed

text \<open>
  The lines of a region that ends at \<open>oe\<close>, in two orders: if the two texts are equal
  after trimming, they are equal.
\<close>

lemma same_region_same_trim:
  assumes oe: "oe < length d" and bs: "bs \<le> oe"
    and so: "\<forall>k. bs \<le> k \<and> k \<le> oe \<longrightarrow> solid (d ! k) \<and> newline \<notin> set (d ! k)"
    and ms: "mset order = mset [bs..<Suc oe]"
    and tr: "trim (concat (map (lineWithBreak d) order)) =
             trim (concat (map (lineWithBreak d) [bs..<Suc oe]))"
  shows "concat (map (lineWithBreak d) order) = concat (map (lineWithBreak d) [bs..<Suc oe])"
proof -
  let ?R = "[bs..<Suc oe]"
  let ?L = "(!) d"
  have setO: "set order = set ?R" using ms by (rule mset_eq_setD)
  have lineR: "\<forall>l\<in>set (map ?L ?R). solid l \<and> newline \<notin> set l" using so by auto
  have lineO: "\<forall>l\<in>set (map ?L order). solid l \<and> newline \<notin> set l"
    using so setO by auto
  have msL: "mset (map ?L order) = mset (map ?L ?R)" using ms by (simp only: mset_map)
  have Rne: "?R \<noteq> []" using bs by simp
  have One: "order \<noteq> []" using setO Rne by auto
  show ?thesis
  proof (cases "Suc oe < length d")
    case True
    then have inR: "\<forall>k\<in>set ?R. Suc k < length d" by auto
    with setO have inO: "\<forall>k\<in>set order. Suc k < length d" by simp
    have cR: "concat (map (lineWithBreak d) ?R) = unlines (map ?L ?R)"
      using inR by (rule concat_inner_lines)
    have cO: "concat (map (lineWithBreak d) order) = unlines (map ?L order)"
      using inO by (rule concat_inner_lines)
    have "trim (join (map ?L order)) = trim (join (map ?L ?R))"
      using tr unfolding cR cO using One Rne by (simp add: trim_unlines)
    with lineO msL have "map ?L order = map ?L ?R" by (rule same_lines_same_trim)
    then show ?thesis unfolding cR cO by simp
  next
    case False
    with oe have last: "Suc oe = length d" by simp
    have R: "?R = [bs..<oe] @ [oe]" using bs by simp
    have inR: "\<forall>k\<in>set [bs..<oe]. Suc k < length d" using oe by auto
    have cR: "concat (map (lineWithBreak d) ?R) = join (map ?L ?R)"
      unfolding R using inR last by (rule concat_lines_to_end)
    have "distinct order" using ms by (metis distinct_upt mset_eq_imp_distinct_iff)
    have "oe \<in> set order" using setO bs by simp
    then obtain o1 o2 where ord: "order = o1 @ oe # o2" by (meson split_list)
    with \<open>distinct order\<close> have notin: "oe \<notin> set o1" "oe \<notin> set o2" by auto
    have in1: "\<forall>k\<in>set o1. Suc k < length d"
    proof
      fix k assume "k \<in> set o1"
      with ord setO notin(1) have "k \<le> oe" "k \<noteq> oe" by auto
      with last show "Suc k < length d" by simp
    qed
    have in2: "\<forall>k\<in>set o2. Suc k < length d"
    proof
      fix k assume "k \<in> set o2"
      with ord setO notin(2) have "k \<le> oe" "k \<noteq> oe" by auto
      with last show "Suc k < length d" by simp
    qed
    show ?thesis
    proof (cases "o2 = []")
      case True
      have cO: "concat (map (lineWithBreak d) order) = join (map ?L order)"
        unfolding ord True using in1 last by (rule concat_lines_to_end)
      have "trim (join (map ?L order)) = trim (join (map ?L ?R))"
        using tr unfolding cR cO .
      with lineO msL have "map ?L order = map ?L ?R" by (rule same_lines_same_trim)
      then show ?thesis unfolding cR cO by simp
    next
      case False
      have len: "length ?R = length o1 + length o2 + 1"
        using mset_eq_length [OF ms] ord by simp
      then have two: "2 \<le> length (map ?L ?R)" using False by (cases o2) auto
      have bR: "Suc (breaks (trim (join (map ?L ?R)))) = length (map ?L ?R)"
        using lineR two by (rule breaks_trim_join)
      have l2: "\<forall>l\<in>set (map ?L o2). newline \<notin> set l" using lineO ord by auto
      have l1: "\<forall>l\<in>set (map ?L o1). newline \<notin> set l" using lineO ord by auto
      have loe: "newline \<notin> set (d ! oe)" using so bs by simp
      define X where "X = unlines (map ?L o1) @ d ! oe @ join (map ?L o2)"
      have "concat (map (lineWithBreak d) order) =
            unlines (map ?L o1) @ d ! oe @ unlines (map ?L o2)"
        unfolding ord using in1 in2 last
        by (simp add: concat_inner_lines lineWithBreak_last)
      also have "\<dots> = X @ [newline]"
        using False by (simp add: X_def unlines_join)
      finally have cO: "concat (map (lineWithBreak d) order) = X @ [newline]" .
      have "Suc (breaks (join (map ?L o2))) = length (map ?L o2)"
        using l2 False by (intro breaks_join) simp_all
      then have bX: "Suc (breaks X) = length o1 + length o2"
        using l1 loe by (simp add: X_def breaks_append breaks_unlines breaks_no_newline)
      have "trim (X @ [newline]) = trim X" by (simp add: trim_snoc isWhiteSpace_newline)
      with tr cO cR have "trim X = trim (join (map ?L ?R))" by simp
      then have "breaks (trim X) = breaks (trim (join (map ?L ?R)))" by simp
      with bR len have "breaks (trim X) = length o1 + length o2" by simp
      with breaks_trim_le [of X] bX have False by simp
      then show ?thesis ..
    qed
  qed
qed

section \<open>The text to insert and the text of the range\<close>

lemma endsWithNewline_snoc: "endsWithNewline s \<Longrightarrow> s = butlast s @ [newline]"
  by (metis append_butlast_last_id endsWithNewline_def)

lemma trim_butlast: "endsWithNewline s \<Longrightarrow> trim (butlast s) = trim s"
  using endsWithNewline_snoc [of s] trim_snoc [OF isWhiteSpace_newline, of "butlast s"] by simp

lemma sameUpToTrailingNewline_trim: "sameUpToTrailingNewline a b \<Longrightarrow> trim a = trim b"
  by (auto simp: sameUpToTrailingNewline_def trim_snoc isWhiteSpace_newline)

lemma trim_textToInsert: "trim (textToInsert d c) = trim (finalBlockText d c)"
  by (simp add: textToInsert_def Let_def slice_0_m1_def trim_butlast trim_snoc isWhiteSpace_newline)

lemma flipped_not_Nil: "l \<noteq> [] \<Longrightarrow> flipped now l \<noteq> []"
  using replace_cases [of l "''[ ]''" "''[x]''"] replace_cases [of l "''[x]''" "''[ ]''"]
  by (cases now) (auto simp: flipped_def)

text \<open>How a text of lines with their line breaks ends.\<close>

lemma concat_ends:
  assumes "ks \<noteq> []"
    and "\<forall>k\<in>set ks. f k = g k @ (if Suc k = n then [] else [newline]) \<and> g k \<noteq> [] \<and>
           newline \<notin> set (g k)"
  shows "Suc (last ks) = n \<Longrightarrow> \<not> endsWithNewline (concat (map f ks))"
    and "Suc (last ks) \<noteq> n \<Longrightarrow>
           endsWithNewline (concat (map f ks)) \<and> \<not> endsWithNewline (butlast (concat (map f ks)))"
proof -
  from assms(1) obtain ks' k where ks: "ks = ks' @ [k]" by (metis rev_exhaust)
  with assms(2) have k: "f k = g k @ (if Suc k = n then [] else [newline])" "g k \<noteq> []"
    "newline \<notin> set (g k)" by auto
  from k(2,3) have lastg: "last (g k) \<noteq> newline" by (metis last_in_set)
  define P where "P = concat (map f ks')"
  have c: "concat (map f ks) = P @ f k" by (simp add: ks P_def)
  show "\<not> endsWithNewline (concat (map f ks))" if "Suc (last ks) = n"
    using that k lastg unfolding c by (simp add: ks endsWithNewline_def)
  show "endsWithNewline (concat (map f ks)) \<and> \<not> endsWithNewline (butlast (concat (map f ks)))"
    if "Suc (last ks) \<noteq> n"
  proof -
    from that k(1) have eq: "concat (map f ks) = (P @ g k) @ [newline]"
      unfolding c by (simp add: ks)
    have "butlast ((P @ g k) @ [newline]) = P @ g k" by (rule butlast_snoc)
    with k(2) lastg show ?thesis unfolding eq by (simp add: endsWithNewline_def)
  qed
qed

lemma region_lines:
  assumes c: "c < length d" and li: "listItemRegex (d ! c)" and wf: "wellFormed d"
  shows "\<forall>k. blockStartLine d c \<le> k \<and> k \<le> overallBlockEndLine d c \<longrightarrow>
           solid (d ! k) \<and> newline \<notin> set (d ! k)"
proof (intro allI impI)
  fix k assume k: "blockStartLine d c \<le> k \<and> k \<le> overallBlockEndLine d c"
  note rf = region_facts [OF c li]
  from k rf(7) have "listItemRegex (d ! k)" by (auto simp: isWithin_def)
  then have "solid (d ! k)" by (rule listItemRegex_solid)
  moreover from k rf(4) have "d ! k \<in> set d" by simp
  with wf have "newline \<notin> set (d ! k)" by (simp add: wellFormed_def)
  ultimately show "solid (d ! k) \<and> newline \<notin> set (d ! k)" by simp
qed

text \<open>
  The text that the loop builds is the text of the lines of the region in some order, the
  clicked line with its new marker.
\<close>

lemma finalBlockText_order:
  assumes c: "c < length d" and li: "listItemRegex (d ! c)" and wf: "wellFormed d"
  shows "\<exists>order. finalBlockText d c = concat (map (newLineWithBreak d c) order) \<and>
           mset order = mset [blockStartLine d c..<Suc (overallBlockEndLine d c)]"
proof -
  from c wf have "newline \<notin> set (d ! c)" by (simp add: wellFormed_def)
  from finalBlockText_lines [OF c li this]
  obtain ts where ts: "finalBlockText d c =
            concat (map (newLineWithBreak d c)
              (concat (map treeLines (filter (\<lambda>t. \<not> treeTicked d c (isNowTicked d c) t) ts)) @
               concat (map treeLines (filter (treeTicked d c (isNowTicked d c)) ts))))"
     "concat (map treeLines ts) = [blockStartLine d c..<Suc (overallBlockEndLine d c)]"
    by blast
  from ts(2) mset_concat_partition [of treeLines "treeTicked d c (isNowTicked d c)" ts]
  have "mset (concat (map treeLines (filter (\<lambda>t. \<not> treeTicked d c (isNowTicked d c) t) ts)) @
               concat (map treeLines (filter (treeTicked d c (isNowTicked d c)) ts))) =
        mset [blockStartLine d c..<Suc (overallBlockEndLine d c)]" by simp
  with ts(1) show ?thesis by blast
qed

lemma textToInsert_ends:
  assumes c: "c < length d" and li: "listItemRegex (d ! c)" and wf: "wellFormed d"
  shows "(overallBlockEndLine d c + 1 = lineCount d \<longrightarrow> \<not> endsWithNewline (textToInsert d c)) \<and>
         (overallBlockEndLine d c + 1 < lineCount d \<longrightarrow>
            endsWithNewline (textToInsert d c) \<and> \<not> endsWithNewline (butlast (textToInsert d c)))"
proof -
  let ?bs = "blockStartLine d c" and ?oe = "overallBlockEndLine d c"
  note rf = region_facts [OF c li]
  note rl = region_lines [OF c li wf]
  from finalBlockText_order [OF c li wf]
  obtain order where fin: "finalBlockText d c = concat (map (newLineWithBreak d c) order)"
    and ms: "mset order = mset [?bs..<Suc ?oe]" by blast
  have setO: "set order = set [?bs..<Suc ?oe]" using ms by (rule mset_eq_setD)
  have bsoe: "?bs \<le> ?oe" using rf(1-3) by simp
  then have One: "order \<noteq> []" using setO by auto
  define g where "g k = (if k = c then flipped (isNowTicked d c) (getLine d c) else getLine d k)" for k
  have chunks: "\<forall>k\<in>set order. newLineWithBreak d c k = g k @ (if Suc k = length d then [] else [newline]) \<and>
      g k \<noteq> [] \<and> newline \<notin> set (g k)"
  proof
    fix k assume "k \<in> set order"
    with setO have k: "?bs \<le> k \<and> k \<le> ?oe" by auto
    with rl have s: "solid (d ! k)" "newline \<notin> set (d ! k)" by auto
    from rf(1-3) rl have sc: "solid (d ! c)" "newline \<notin> set (d ! c)" by auto
    have "g k \<noteq> []"
      using s(1) sc(1) by (auto simp: g_def getLine_def solid_not_Nil flipped_not_Nil)
    moreover have "newline \<notin> set (g k)"
      using s(2) sc(2) by (auto simp: g_def getLine_def flipped_no_newline)
    ultimately show "newLineWithBreak d c k = g k @ (if Suc k = length d then [] else [newline]) \<and>
      g k \<noteq> [] \<and> newline \<notin> set (g k)"
      by (simp add: newLineWithBreak_def g_def lineCount_def)
  qed
  note ends = concat_ends [OF One chunks, folded fin]
  have lastO: "last order \<le> ?oe" using One setO by (metis last_in_set atLeastLessThan_iff less_Suc_eq_le set_upt)
  have eof: "\<not> endsWithNewline (textToInsert d c)" if e: "?oe + 1 = lineCount d"
  proof (cases "endsWithNewline (finalBlockText d c)")
    case True
    with ends(1) have "Suc (last order) \<noteq> length d" by blast
    with ends(2) have "\<not> endsWithNewline (butlast (finalBlockText d c))" by blast
    with True e show ?thesis by (simp add: textToInsert_def Let_def slice_0_m1_def)
  next
    case False
    with e show ?thesis by (simp add: textToInsert_def Let_def)
  qed
  have inner: "endsWithNewline (textToInsert d c) \<and> \<not> endsWithNewline (butlast (textToInsert d c))"
    if e: "?oe + 1 < lineCount d"
  proof -
    from e lastO have "Suc (last order) \<noteq> length d" by (simp add: lineCount_def)
    with ends(2) have "endsWithNewline (finalBlockText d c) \<and>
        \<not> endsWithNewline (butlast (finalBlockText d c))" by blast
    with e show ?thesis by (simp add: textToInsert_def Let_def)
  qed
  from eof inner show ?thesis by blast
qed

lemma count_concat:
  "length (filter P (concat (map f ks))) =
   sum_mset (image_mset (\<lambda>k. length (filter P (f k))) (mset ks))"
  by (induction ks) simp_all

text \<open>
  When the text to insert and the text of the range are equal after trimming, they are
  equal.
\<close>

lemma trim_eq_imp_same_text:
  assumes c: "c < length d" and li: "listItemRegex (d ! c)" and wf: "wellFormed d"
    and tr: "trim (textToInsert d c) = trim (originalBlockText d c)"
  shows "textToInsert d c = originalBlockText d c"
proof -
  let ?bs = "blockStartLine d c" and ?oe = "overallBlockEndLine d c"
  let ?R = "[?bs..<Suc ?oe]"
  let ?x = "(=) CHR ''x''"
  note rf = region_facts [OF c li]
  note rl = region_lines [OF c li wf]
  from finalBlockText_order [OF c li wf]
  obtain order where fin: "finalBlockText d c = concat (map (newLineWithBreak d c) order)"
    and ms: "mset order = mset ?R" by blast
  have orig: "originalBlockText d c = concat (map (lineWithBreak d) ?R)"
    using c li by (rule originalBlockText_lines)
  have tr0: "trim (finalBlockText d c) = trim (originalBlockText d c)"
    using tr by (simp add: trim_textToInsert)
  have cR: "c \<in> set ?R" using rf(1-3) by auto
  define R' where "R' = remove1 c ?R"
  have msR: "mset ?R = add_mset c (mset R')"
    using cR unfolding R'_def by simp
  have notc: "\<forall>k\<in>set R'. k \<noteq> c"
    unfolding R'_def by (simp add: set_remove1_eq)
  have same: "flipped (isNowTicked d c) (getLine d c) = getLine d c"
  proof -
    have "length (filter ?x (finalBlockText d c)) = length (filter ?x (trim (finalBlockText d c)))"
      by (subst filter_trim) (auto simp: isWhiteSpace_def)
    also have "\<dots> = length (filter ?x (trim (originalBlockText d c)))" by (simp only: tr0)
    also have "\<dots> = length (filter ?x (originalBlockText d c))"
      by (subst filter_trim) (auto simp: isWhiteSpace_def)
    finally have eq: "length (filter ?x (finalBlockText d c)) = length (filter ?x (originalBlockText d c))" .
    have rest: "image_mset (\<lambda>k. length (filter ?x (newLineWithBreak d c k))) (mset R') =
          image_mset (\<lambda>k. length (filter ?x (lineWithBreak d k))) (mset R')"
      using notc by (intro image_mset_cong) (simp add: newLineWithBreak_other)
    have "length (filter ?x (finalBlockText d c)) =
          length (filter ?x (newLineWithBreak d c c)) +
          sum_mset (image_mset (\<lambda>k. length (filter ?x (lineWithBreak d k))) (mset R'))"
      unfolding fin count_concat ms msR by (simp add: rest)
    moreover have "length (filter ?x (originalBlockText d c)) =
          length (filter ?x (lineWithBreak d c)) +
          sum_mset (image_mset (\<lambda>k. length (filter ?x (lineWithBreak d k))) (mset R'))"
      unfolding orig count_concat msR by simp
    ultimately have "length (filter ?x (newLineWithBreak d c c)) = length (filter ?x (lineWithBreak d c))"
      using eq by simp
    then have "length (filter ?x (flipped (isNowTicked d c) (getLine d c))) =
        length (filter ?x (getLine d c))"
      by (simp add: newLineWithBreak_def lineWithBreak_def)
    with flipped_count [of "isNowTicked d c" "getLine d c"] show ?thesis by blast
  qed
  have "newLineWithBreak d c = lineWithBreak d"
    by (rule ext) (simp add: newLineWithBreak_def lineWithBreak_def same)
  with fin have fin': "finalBlockText d c = concat (map (lineWithBreak d) order)" by simp
  have bsoe: "?bs \<le> ?oe" using rf(1-3) by simp
  have "concat (map (lineWithBreak d) order) = concat (map (lineWithBreak d) ?R)"
    using rf(4) bsoe rl ms tr0 [unfolded fin' orig] by (rule same_region_same_trim)
  then have fo: "finalBlockText d c = originalBlockText d c" by (simp add: fin' orig)
  have chunks: "\<forall>k\<in>set ?R. lineWithBreak d k = d ! k @ (if Suc k = length d then [] else [newline]) \<and>
      d ! k \<noteq> [] \<and> newline \<notin> set (d ! k)"
    using rl by (auto simp: lineWithBreak_def getLine_def lineCount_def solid_not_Nil)
  have Rne: "?R \<noteq> []" using bsoe by simp
  have lastR: "last ?R = ?oe" using bsoe by simp
  note ends = concat_ends [OF Rne chunks, folded orig, unfolded lastR]
  show ?thesis
  proof (cases "Suc ?oe = length d")
    case True
    with ends(1) have "\<not> endsWithNewline (originalBlockText d c)" by blast
    with True show ?thesis by (simp add: textToInsert_def Let_def fo lineCount_def)
  next
    case False
    with ends(2) have "endsWithNewline (originalBlockText d c)" by blast
    with False show ?thesis by (simp add: textToInsert_def Let_def fo lineCount_def)
  qed
qed

section \<open>The rewrite where no lines are merged\<close>

lemma split_unlines:
  "\<forall>l\<in>set ls. newline \<notin> set l \<Longrightarrow> split (unlines ls @ r) = ls @ split r"
  by (induction ls) (simp_all add: unlines_def split_append_newline)

lemma join_append: "ms \<noteq> [] \<Longrightarrow> join (ls @ ms) = unlines ls @ join ms"
  by (induction ls) (simp_all add: unlines_def join_Cons)

lemma concat_lines_from:
  assumes "n < length d"
  shows "concat (map (lineWithBreak d) [n..<length d]) = join (drop n d)"
proof -
  have "[0..<length d] = [0..<n] @ [n..<length d]"
    using assms by (metis le_add_diff_inverse less_imp_le upt_add_eq_append zero_le)
  then have "join d = concat (map (lineWithBreak d) [0..<n]) @ concat (map (lineWithBreak d) [n..<length d])"
    unfolding join_lines by simp
  moreover have "concat (map (lineWithBreak d) [0..<n]) = unlines (take n d)"
    using take_breaks [OF assms] by (simp add: unlines_def)
  moreover have "join (take n d @ drop n d) = unlines (take n d) @ join (drop n d)"
    using assms by (intro join_append) simp
  ultimately show ?thesis by simp
qed

text \<open>
  When lines follow the replaced range, the text to insert holds the trees of the unticked
  peers and then the trees of the ticked peers, each line with its line break, and the
  document after the transaction is the document with the lines of the range in that
  order, the clicked line with its new marker.
\<close>

lemma rewrite_when_lines_follow:
  assumes c: "c < length d" and li: "listItemRegex (d ! c)" and wf: "wellFormed d"
    and follow: "Suc (overallBlockEndLine d c) < length d"
  shows "\<exists>ts. concat (map treeLines ts) = [blockStartLine d c..<Suc (overallBlockEndLine d c)] \<and>
           (\<forall>t\<in>set ts. isPeer (currentIndent d c) (d ! fst t) \<and>
              snd t = scanTree d (currentIndent d c) (Suc (fst t)) (fst t)) \<and>
           (let order = concat (map treeLines (filter (\<lambda>t. \<not> treeTicked d c (isNowTicked d c) t) ts)) @
                        concat (map treeLines (filter (treeTicked d c (isNowTicked d c)) ts))
            in textToInsert d c = unlines (map (newLine d c) order) \<and>
               transaction d (deleteFrom d c) (deleteTo d c) (textToInsert d c) =
                 take (blockStartLine d c) d @ map (newLine d c) order @
                 drop (Suc (overallBlockEndLine d c)) d)"
proof -
  let ?bs = "blockStartLine d c" and ?oe = "overallBlockEndLine d c"
  let ?now = "isNowTicked d c"
  note rf = region_facts [OF c li]
  note rl = region_lines [OF c li wf]
  from c wf have nlc: "newline \<notin> set (d ! c)" by (simp add: wellFormed_def)
  from finalBlockText_lines [OF c li nlc]
  obtain ts where ts: "finalBlockText d c =
            concat (map (newLineWithBreak d c)
              (concat (map treeLines (filter (\<lambda>t. \<not> treeTicked d c ?now t) ts)) @
               concat (map treeLines (filter (treeTicked d c ?now) ts))))"
     "concat (map treeLines ts) = [?bs..<Suc ?oe]"
     "\<forall>t\<in>set ts. isPeer (currentIndent d c) (d ! fst t) \<and>
             snd t = scanTree d (currentIndent d c) (Suc (fst t)) (fst t)"
    by blast
  define order where "order = concat (map treeLines (filter (\<lambda>t. \<not> treeTicked d c ?now t) ts)) @
               concat (map treeLines (filter (treeTicked d c ?now) ts))"
  have ms: "mset order = mset [?bs..<Suc ?oe]"
    unfolding order_def using ts(2) mset_concat_partition [of treeLines "treeTicked d c ?now" ts]
    by simp
  then have setO: "set order = set [?bs..<Suc ?oe]" by (rule mset_eq_setD)
  have inner: "\<forall>k\<in>set order. Suc k < length d" using setO follow by auto
  have brk: "map (newLineWithBreak d c) order = map (\<lambda>k. newLine d c k @ [newline]) order"
    using inner by (intro map_cong) (auto simp: newLineWithBreak_def newLine_def lineCount_def)
  have fin: "finalBlockText d c = unlines (map (newLine d c) order)"
    unfolding ts(1) order_def [symmetric] brk by (simp add: unlines_def comp_def)
  have bsoe: "?bs \<le> ?oe" using rf(1-3) by simp
  then have One: "order \<noteq> []" using setO by auto
  have "endsWithNewline (finalBlockText d c)"
    unfolding fin using One by (simp add: unlines_join endsWithNewline_def)
  with follow have tti: "textToInsert d c = unlines (map (newLine d c) order)"
    by (simp add: textToInsert_def Let_def lineCount_def fin)
  have free: "\<forall>l\<in>set (map (newLine d c) order). newline \<notin> set l"
  proof
    fix l assume "l \<in> set (map (newLine d c) order)"
    then obtain k where k: "k \<in> set order" "l = newLine d c k" by auto
    with setO rl have "newline \<notin> set (d ! k)" by auto
    with nlc k(2) show "newline \<notin> set l"
      by (simp add: newLine_def getLine_def flipped_no_newline)
  qed
  have before: "concat (map (lineWithBreak d) [0..<?bs]) = unlines (take ?bs d)"
    using take_breaks [of ?bs d] rf(1) c by (simp add: unlines_def)
  have after: "concat (map (lineWithBreak d) [Suc ?oe..<length d]) = join (drop (Suc ?oe) d)"
    using follow by (rule concat_lines_from)
  have wfd: "\<forall>l\<in>set d. newline \<notin> set l" using wf by (simp add: wellFormed_def)
  have f1: "\<forall>l\<in>set (take ?bs d). newline \<notin> set l"
    using wfd by (meson in_set_takeD)
  have f3: "\<forall>l\<in>set (drop (Suc ?oe) d). newline \<notin> set l"
    using wfd by (meson in_set_dropD)
  have ne3: "drop (Suc ?oe) d \<noteq> []" using follow by simp
  have "transaction d (deleteFrom d c) (deleteTo d c) (textToInsert d c) =
        split (unlines (take ?bs d) @ unlines (map (newLine d c) order) @ join (drop (Suc ?oe) d))"
    unfolding transaction_lines [OF c li] before after tti ..
  also have "\<dots> = take ?bs d @ map (newLine d c) order @ drop (Suc ?oe) d"
    using f1 free f3 ne3 by (simp add: split_unlines split_join)
  finally have tr: "transaction d (deleteFrom d c) (deleteTo d c) (textToInsert d c) =
        take ?bs d @ map (newLine d c) order @ drop (Suc ?oe) d" .
  from ts(2,3) tti tr show ?thesis
    unfolding order_def Let_def by blast
qed

text \<open>
  When the replaced range ends at the last line of the document and that line is still
  the last line of the new order, the text to insert holds the lines of the new order
  joined by line breaks, and the document after the transaction ends with them.
\<close>

lemma rewrite_when_last_line_stays_last:
  assumes c: "c < length d" and li: "listItemRegex (d ! c)" and wf: "wellFormed d"
    and eof: "Suc (overallBlockEndLine d c) = length d"
  shows "\<exists>ts. concat (map treeLines ts) = [blockStartLine d c..<Suc (overallBlockEndLine d c)] \<and>
           (\<forall>t\<in>set ts. isPeer (currentIndent d c) (d ! fst t) \<and>
              snd t = scanTree d (currentIndent d c) (Suc (fst t)) (fst t)) \<and>
           (let order = concat (map treeLines (filter (\<lambda>t. \<not> treeTicked d c (isNowTicked d c) t) ts)) @
                        concat (map treeLines (filter (treeTicked d c (isNowTicked d c)) ts))
            in last order = overallBlockEndLine d c \<longrightarrow>
               textToInsert d c = join (map (newLine d c) order) \<and>
               transaction d (deleteFrom d c) (deleteTo d c) (textToInsert d c) =
                 take (blockStartLine d c) d @ map (newLine d c) order)"
proof -
  let ?bs = "blockStartLine d c" and ?oe = "overallBlockEndLine d c"
  let ?now = "isNowTicked d c"
  note rf = region_facts [OF c li]
  note rl = region_lines [OF c li wf]
  from c wf have nlc: "newline \<notin> set (d ! c)" by (simp add: wellFormed_def)
  from finalBlockText_lines [OF c li nlc]
  obtain ts where ts: "finalBlockText d c =
            concat (map (newLineWithBreak d c)
              (concat (map treeLines (filter (\<lambda>t. \<not> treeTicked d c ?now t) ts)) @
               concat (map treeLines (filter (treeTicked d c ?now) ts))))"
     "concat (map treeLines ts) = [?bs..<Suc ?oe]"
     "\<forall>t\<in>set ts. isPeer (currentIndent d c) (d ! fst t) \<and>
             snd t = scanTree d (currentIndent d c) (Suc (fst t)) (fst t)"
    by blast
  define order where "order = concat (map treeLines (filter (\<lambda>t. \<not> treeTicked d c ?now t) ts)) @
               concat (map treeLines (filter (treeTicked d c ?now) ts))"
  have ms: "mset order = mset [?bs..<Suc ?oe]"
    unfolding order_def using ts(2) mset_concat_partition [of treeLines "treeTicked d c ?now" ts]
    by simp
  then have setO: "set order = set [?bs..<Suc ?oe]" by (rule mset_eq_setD)
  have dist: "distinct order" using ms by (metis distinct_upt mset_eq_imp_distinct_iff)
  have bsoe: "?bs \<le> ?oe" using rf(1-3) by simp
  then have One: "order \<noteq> []" using setO by auto
  have free: "\<forall>l\<in>set (map (newLine d c) order). newline \<notin> set l"
  proof
    fix l assume "l \<in> set (map (newLine d c) order)"
    then obtain k where k: "k \<in> set order" "l = newLine d c k" by auto
    with setO rl have "newline \<notin> set (d ! k)" by auto
    with nlc k(2) show "newline \<notin> set l"
      by (simp add: newLine_def getLine_def flipped_no_newline)
  qed
  have goal: "textToInsert d c = join (map (newLine d c) order) \<and>
      transaction d (deleteFrom d c) (deleteTo d c) (textToInsert d c) =
        take ?bs d @ map (newLine d c) order" if lastO: "last order = ?oe"
  proof -
    from One lastO obtain o1 where ord: "order = o1 @ [?oe]"
      by (metis append_butlast_last_id)
    with dist have notin: "?oe \<notin> set o1" by auto
    have inner: "\<forall>k\<in>set o1. Suc k < length d"
    proof
      fix k assume k: "k \<in> set o1"
      with ord have "k \<in> set order" by simp
      then have "k \<in> {?bs..<Suc ?oe}" unfolding setO by (simp only: set_upt)
      then have "k \<le> ?oe" by (simp only: atLeastLessThan_iff less_Suc_eq_le)
      moreover from k notin have "k \<noteq> ?oe" by auto
      ultimately show "Suc k < length d" using eof by simp
    qed
    have b1: "map (newLineWithBreak d c) o1 = map (\<lambda>k. newLine d c k @ [newline]) o1"
      using inner by (intro map_cong) (auto simp: newLineWithBreak_def newLine_def lineCount_def)
    have b2: "newLineWithBreak d c ?oe = newLine d c ?oe"
      using eof by (simp add: newLineWithBreak_def newLine_def lineCount_def)
    have fin: "finalBlockText d c = join (map (newLine d c) order)"
      unfolding ts(1) order_def [symmetric] unfolding ord
      by (simp add: b1 b2 join_snoc unlines_def comp_def)
    have "newLine d c ?oe \<in> set (map (newLine d c) order)" using ord by simp
    with free have f: "newline \<notin> set (newLine d c ?oe)" by blast
    from rl bsoe have "solid (d ! ?oe)" by simp
    moreover from rl rf(1-3) have "solid (d ! c)" by simp
    ultimately have "newLine d c ?oe \<noteq> []"
      by (auto simp: newLine_def getLine_def solid_not_Nil flipped_not_Nil)
    with f have "last (newLine d c ?oe) \<noteq> newline" by (metis last_in_set)
    then have "\<not> endsWithNewline (finalBlockText d c)"
      unfolding fin ord using \<open>newLine d c ?oe \<noteq> []\<close>
      by (simp add: join_snoc endsWithNewline_def)
    with eof have tti: "textToInsert d c = join (map (newLine d c) order)"
      by (simp add: textToInsert_def Let_def lineCount_def fin)
    have before: "concat (map (lineWithBreak d) [0..<?bs]) = unlines (take ?bs d)"
      using take_breaks [of ?bs d] rf(1) c by (simp add: unlines_def)
    have wfd: "\<forall>l\<in>set d. newline \<notin> set l" using wf by (simp add: wellFormed_def)
    have f1: "\<forall>l\<in>set (take ?bs d). newline \<notin> set l"
      using wfd by (meson in_set_takeD)
    have "transaction d (deleteFrom d c) (deleteTo d c) (textToInsert d c) =
          split (unlines (take ?bs d) @ join (map (newLine d c) order))"
      unfolding transaction_lines [OF c li] before tti using eof by simp
    also have "\<dots> = take ?bs d @ map (newLine d c) order"
      using f1 free One by (simp add: split_unlines split_join)
    finally show ?thesis using tti by simp
  qed
  from ts(2,3) goal show ?thesis
    unfolding order_def Let_def by blast
qed

section \<open>Properties of the configuration hierarchy\<close>

text \<open>
  C9. A \<^verbatim>\<open>checkbox-sort\<close> entry of the front matter that is present but is not a boolean is
  treated as absent: the setting of the file level is the global setting, and the call
  does what it does on the same view with the entry removed, so no error comes of it.
\<close>

theorem config_decode_failure:
  assumes "fileCache view = Some cache" and "frontmatter cache = Some fm"
    and "fm ''checkbox-sort'' = v" and "v \<noteq> JSUndefined" and "\<forall>b. v \<noteq> JSBoolean b"
  shows "fileLevelSortingEnabled settings view = enableGlobalCheckboxSort settings \<and>
         sortCheckboxesAroundClick settings view clickedLineNumber =
           sortCheckboxesAroundClick settings
             (view\<lparr>fileCache := Some (cache\<lparr>frontmatter := Some (fm(''checkbox-sort'' := JSUndefined))\<rparr>)\<rparr>)
             clickedLineNumber"
proof -
  let ?view' = "view\<lparr>fileCache := Some (cache\<lparr>frontmatter := Some (fm(''checkbox-sort'' := JSUndefined))\<rparr>)\<rparr>"
  have f: "fileLevelSortingEnabled settings view = enableGlobalCheckboxSort settings"
    using assms by (cases v) (auto simp: fileLevelSortingEnabled_def)
  have f': "fileLevelSortingEnabled settings ?view' = enableGlobalCheckboxSort settings"
    by (simp add: fileLevelSortingEnabled_def)
  have "effectiveSortingEnabled settings ?view' clickedLineNumber =
        effectiveSortingEnabled settings view clickedLineNumber"
    using f f' by (simp add: effectiveSortingEnabled_def split: option.split)
  then show ?thesis using f by (simp add: sortCheckboxesAroundClick_def)
qed

theorem config_decode_failure_witness:
  "(let fm = (\<lambda>k. if k = ''checkbox-sort'' then JSString ''no'' else JSUndefined);
        cache = \<lparr>frontmatter = Some fm\<rparr>;
        view = \<lparr>editor = [''- [ ] A'', ''- [ ] B'', ''''], viewFile = True, fileCache = Some cache\<rparr>;
        settings = \<lparr>enableGlobalCheckboxSort = True, debugMode = False\<rparr>
    in fileLevelSortingEnabled settings view = True \<and>
       sortCheckboxesAroundClick settings view 0 =
       sortCheckboxesAroundClick settings
         (view\<lparr>fileCache := Some (cache\<lparr>frontmatter := Some (fm(''checkbox-sort'' := JSUndefined))\<rparr>)\<rparr>) 0)"
proof -
  let ?fm = "\<lambda>k. if k = ''checkbox-sort'' then JSString ''no'' else JSUndefined"
  let ?cache = "\<lparr>frontmatter = Some ?fm\<rparr>"
  let ?view = "\<lparr>editor = [''- [ ] A'', ''- [ ] B'', ''''], viewFile = True, fileCache = Some ?cache\<rparr>"
  let ?settings = "\<lparr>enableGlobalCheckboxSort = True, debugMode = False\<rparr>"
  have "fileCache ?view = Some ?cache" "frontmatter ?cache = Some ?fm"
    "?fm ''checkbox-sort'' = JSString ''no''" "JSString ''no'' \<noteq> JSUndefined"
    "\<forall>b. JSString ''no'' \<noteq> JSBoolean b"
    by simp_all
  from config_decode_failure [OF this, of ?settings 0] show ?thesis
    unfolding Let_def by (simp add: documentAfter_def)
qed

lemma scanListMarker_nearest_enable:
  assumes "m < n"
    and "includesStr (trim (getLine d m)) enableMarker"
    and "\<And>i. m < i \<Longrightarrow> i < n \<Longrightarrow>
           listItemRegex (trim (getLine d i)) \<and> \<not> includesStr (trim (getLine d i)) disableMarker"
  shows "scanListMarker d n = Some True"
  using assms
proof (induction n)
  case 0
  then show ?case by simp
next
  case (Suc n)
  show ?case
  proof (cases "m = n")
    case True
    with Suc.prems(2) show ?thesis by (simp add: Let_def)
  next
    case False
    with Suc.prems(1) have mn: "m < n" by simp
    have here: "listItemRegex (trim (getLine d n)) \<and> \<not> includesStr (trim (getLine d n)) disableMarker"
      using Suc.prems(3) [of n] mn by simp
    have "scanListMarker d n = Some True"
      using Suc.IH [OF mn Suc.prems(2)] Suc.prems(3) by simp
    with here show ?thesis by (simp add: Let_def)
  qed
qed

text \<open>
  When the front matter of the file says \<^verbatim>\<open>checkbox-sort: false\<close>, a line \<open>m\<close> above the
  clicked line holds the enable marker, and every line between \<open>m\<close> and the clicked line
  passes the test of the scan (the trimmed line is a list item) and holds no disable
  marker, the effective setting is on: the marker wins over the front matter and the
  global setting.
\<close>

lemma marker_wins_when_scan_passes:
  assumes "enableGlobalCheckboxSort settings"
    and "viewFile view" and "fileCache view = Some cache" and "frontmatter cache = Some fm"
    and "fm ''checkbox-sort'' = JSBoolean False"
    and "m < clickedLineNumber"
    and "includesStr (trim (getLine (editor view) m)) enableMarker"
    and "\<forall>i. m < i \<and> i < clickedLineNumber \<longrightarrow>
           listItemRegex (trim (getLine (editor view) i)) \<and>
           \<not> includesStr (trim (getLine (editor view) i)) disableMarker"
  shows "\<not> fileLevelSortingEnabled settings view \<and>
         effectiveSortingEnabled settings view clickedLineNumber"
proof -
  have "scanListMarker (editor view) clickedLineNumber = Some True"
    using assms(6,7,8) by (intro scanListMarker_nearest_enable [of m]) auto
  then show ?thesis
    using assms(2-5) by (simp add: effectiveSortingEnabled_def fileLevelSortingEnabled_def)
qed

text \<open>
  C4. With the global setting on, \<^verbatim>\<open>checkbox-sort: false\<close> in the front matter and the
  enable marker on the line above the list, the effective setting should be on. On the
  document \<^verbatim>\<open>%%checkbox-sort: true%%\<close>, \<^verbatim>\<open>- \<close>, \<^verbatim>\<open>- [ ] Buy milk\<close>, a click on line 2
  finds it off. Line 1, a list item without text, is a list item for \<^const>\<open>listItemRegex\<close>
  and is a peer of the clicked line (the block starts at line 1), but the scan for the
  marker tests the trimmed line, \<^verbatim>\<open>-\<close>, which is no list item, stops there and never reaches
  the marker.
\<close>

theorem marker_scan_stops_at_item_without_text:
  "(let settings = \<lparr>enableGlobalCheckboxSort = True, debugMode = False\<rparr>;
        view = \<lparr>editor = [''%%checkbox-sort: true%%'', ''- '', ''- [ ] Buy milk''],
                 viewFile = True,
                 fileCache = Some \<lparr>frontmatter = Some (\<lambda>k. if k = ''checkbox-sort''
                                                           then JSBoolean False else JSUndefined)\<rparr>\<rparr>
    in listItemRegex (getLine (editor view) 1) \<and>
       \<not> listItemRegex (trim (getLine (editor view) 1)) \<and>
       blockStartLine (editor view) 2 = 1 \<and>
       scanListMarker (editor view) 2 = None \<and>
       \<not> effectiveSortingEnabled settings view 2 \<and>
       sortCheckboxesAroundClick settings view 2 = SortingDisabled)"
  by code_simp

text \<open>
  C5. When the effective setting is off, whatever its source, the call issues no
  transaction and the document after it is the document before it.
\<close>

theorem disabled_short_circuit:
  assumes "\<not> effectiveSortingEnabled settings view clickedLineNumber"
  shows "(\<forall>from to t. sortCheckboxesAroundClick settings view clickedLineNumber \<noteq> Transaction from to t) \<and>
         documentAfter (editor view) (sortCheckboxesAroundClick settings view clickedLineNumber) = editor view"
  using assms by (simp add: sortCheckboxesAroundClick_def documentAfter_def)

theorem disabled_short_circuit_witness:
  "(let view = \<lparr>editor = [''%%checkbox-sort: false%%'', ''- [ ] A'', ''- [ ] B'', ''''],
                  viewFile = True, fileCache = None\<rparr>;
        settings = \<lparr>enableGlobalCheckboxSort = True, debugMode = False\<rparr>
    in \<not> effectiveSortingEnabled settings view 1 \<and>
       sortCheckboxesAroundClick settings view 1 = SortingDisabled \<and>
       documentAfter (editor view) (sortCheckboxesAroundClick settings view 1) = editor view)"
proof -
  let ?view = "\<lparr>editor = [''%%checkbox-sort: false%%'', ''- [ ] A'', ''- [ ] B'', ''''],
                  viewFile = True, fileCache = None\<rparr>"
  let ?settings = "\<lparr>enableGlobalCheckboxSort = True, debugMode = False\<rparr>"
  have e: "\<not> effectiveSortingEnabled ?settings ?view 1" by code_simp
  have s: "sortCheckboxesAroundClick ?settings ?view 1 = SortingDisabled" by code_simp
  from disabled_short_circuit [OF e] e s show ?thesis unfolding Let_def by (simp add: documentAfter_def)
qed

section \<open>Properties of the rewrite\<close>

text \<open>
  The list items of \<^verbatim>\<open>/^\s*[-*+]\s+/\<close>: after the leading white space comes a bullet and
  then a white space character.
\<close>

lemma listItemRegex_iff:
  "listItemRegex l \<longleftrightarrow>
     (\<exists>b w r. dropWhile isWhiteSpace l = b # w # r \<and> isBullet b \<and> isWhiteSpace w)"
proof (cases "dropWhile isWhiteSpace l")
  case Nil
  then show ?thesis unfolding listItemRegex_def by (simp only: list.case) simp
next
  case (Cons b t)
  then show ?thesis unfolding listItemRegex_def by (cases t) (simp_all only: list.case, simp_all)
qed

text \<open>
  C7, as stated with a space after the bullet, fails for a list item whose bullet is
  followed by a tab: the line \<^verbatim>\<open>-<TAB>[ ] a\<close> starts with a bullet that is not followed by
  a space character, yet it matches \<^verbatim>\<open>/^\s*[-*+]\s+/\<close>, and a click on it rewrites the
  document.
\<close>

theorem list_item_with_tab_is_sorted:
  "getLine [CHR ''-'' # CHR 0x09 # ''[ ] a'', CHR ''-'' # CHR 0x09 # ''[ ] b'', []] 0 ! 0 = CHR ''-'' \<and>
   getLine [CHR ''-'' # CHR 0x09 # ''[ ] a'', CHR ''-'' # CHR 0x09 # ''[ ] b'', []] 0 ! 1 \<noteq> CHR '' '' \<and>
   sortCheckboxesAroundClick \<lparr>enableGlobalCheckboxSort = True, debugMode = False\<rparr>
     \<lparr>editor = [CHR ''-'' # CHR 0x09 # ''[ ] a'', CHR ''-'' # CHR 0x09 # ''[ ] b'', []],
        viewFile = True, fileCache = None\<rparr> 0 =
     Transaction \<lparr>line = 0, ch = 0\<rparr> \<lparr>line = 2, ch = 0\<rparr>
       (CHR ''-'' # CHR 0x09 # ''[ ] b'' @ newline # CHR ''-'' # CHR 0x09 # ''[x] a'' @ [newline]) \<and>
   documentAfter [CHR ''-'' # CHR 0x09 # ''[ ] a'', CHR ''-'' # CHR 0x09 # ''[ ] b'', []]
     (sortCheckboxesAroundClick \<lparr>enableGlobalCheckboxSort = True, debugMode = False\<rparr>
        \<lparr>editor = [CHR ''-'' # CHR 0x09 # ''[ ] a'', CHR ''-'' # CHR 0x09 # ''[ ] b'', []],
           viewFile = True, fileCache = None\<rparr> 0) =
     [CHR ''-'' # CHR 0x09 # ''[ ] b'', CHR ''-'' # CHR 0x09 # ''[x] a'', []]"
  by code_simp

text \<open>
  C7, amended. A click on a line of the document that is not a list item (the line fails
  \<^verbatim>\<open>/^\s*[-*+]\s+/\<close>: after its leading white space it does not start with a bullet
  followed by a white space character, a tab included) ends the call before any write:
  the outcome is \<open>NotAListItem\<close>, the branch that logs the warning, when sorting is
  enabled, and \<open>SortingDisabled\<close> otherwise, and the document is unchanged.
\<close>

theorem not_a_list_item_aborts:
  assumes "clickedLineNumber < lineCount (editor view)"
    and "\<not> listItemRegex (getLine (editor view) clickedLineNumber)"
  shows "sortCheckboxesAroundClick settings view clickedLineNumber =
           (if effectiveSortingEnabled settings view clickedLineNumber then NotAListItem
            else SortingDisabled) \<and>
         documentAfter (editor view) (sortCheckboxesAroundClick settings view clickedLineNumber) = editor view"
  using assms by (simp add: sortCheckboxesAroundClick_def sortPeerBlock_def documentAfter_def)

theorem not_a_list_item_aborts_witness:
  "(let view = \<lparr>editor = [''- [ ] A'', ''Some paragraph'', ''- [x] B''],
                  viewFile = True, fileCache = None\<rparr>;
        settings = \<lparr>enableGlobalCheckboxSort = True, debugMode = False\<rparr>
    in 1 < lineCount (editor view) \<and> \<not> listItemRegex (getLine (editor view) 1) \<and>
       sortCheckboxesAroundClick settings view 1 = NotAListItem \<and>
       documentAfter (editor view) (sortCheckboxesAroundClick settings view 1) = editor view)"
proof -
  let ?view = "\<lparr>editor = [''- [ ] A'', ''Some paragraph'', ''- [x] B''],
                  viewFile = True, fileCache = None\<rparr>"
  let ?settings = "\<lparr>enableGlobalCheckboxSort = True, debugMode = False\<rparr>"
  have a: "1 < lineCount (editor ?view)" by code_simp
  have b: "\<not> listItemRegex (getLine (editor ?view) 1)" by code_simp
  have e: "effectiveSortingEnabled ?settings ?view 1" by code_simp
  from not_a_list_item_aborts [OF a b, of ?settings] a b e show ?thesis
    unfolding Let_def by (simp add: documentAfter_def)
qed

text \<open>
  C2. On the document of the three lines \<^verbatim>\<open>- [ ] Buy milk\<close>, \<^verbatim>\<open>- [ ] Get gas\<close>,
  \<^verbatim>\<open>- [x] Bread\<close>, a click on line 0 with sorting enabled leaves the document with the
  lines \<^verbatim>\<open>- [ ] Get gas\<close>, \<^verbatim>\<open>- [x] Buy milk\<close>, \<^verbatim>\<open>- [x] Bread\<close>.
\<close>

theorem end_to_end_example:
  assumes "editor view = [''- [ ] Buy milk'', ''- [ ] Get gas'', ''- [x] Bread'']"
    and "effectiveSortingEnabled settings view 0"
  shows "documentAfter (editor view) (sortCheckboxesAroundClick settings view 0) =
           [''- [ ] Get gas'', ''- [x] Buy milk'', ''- [x] Bread'']"
proof -
  let ?d = "[''- [ ] Buy milk'', ''- [ ] Get gas'', ''- [x] Bread'']"
  have "documentAfter ?d (sortPeerBlock ?d 0) =
          [''- [ ] Get gas'', ''- [x] Buy milk'', ''- [x] Bread'']"
    by code_simp
  with assms show ?thesis
    by (simp add: sortCheckboxesAroundClick_def lineCount_def)
qed

theorem end_to_end_example_witness:
  "(let view = \<lparr>editor = [''- [ ] Buy milk'', ''- [ ] Get gas'', ''- [x] Bread''],
                  viewFile = True, fileCache = None\<rparr>;
        settings = \<lparr>enableGlobalCheckboxSort = True, debugMode = False\<rparr>
    in effectiveSortingEnabled settings view 0 \<and>
       documentAfter (editor view) (sortCheckboxesAroundClick settings view 0) =
         [''- [ ] Get gas'', ''- [x] Buy milk'', ''- [x] Bread''])"
proof -
  let ?view = "\<lparr>editor = [''- [ ] Buy milk'', ''- [ ] Get gas'', ''- [x] Bread''],
                  viewFile = True, fileCache = None\<rparr>"
  let ?settings = "\<lparr>enableGlobalCheckboxSort = True, debugMode = False\<rparr>"
  have e: "effectiveSortingEnabled ?settings ?view 0" by code_simp
  have d: "editor ?view = [''- [ ] Buy milk'', ''- [ ] Get gas'', ''- [x] Bread'']" by simp
  from end_to_end_example [OF d e] e show ?thesis unfolding Let_def by (simp add: documentAfter_def)
qed

text \<open>
  C1. The text written for the peer block should hold the blocks of the unchecked bucket
  and then those of the checked bucket, each block on lines of its own. On a document of
  the two lines \<^verbatim>\<open>- [ ] A\<close> and \<^verbatim>\<open>- [ ] B\<close>, whose last line is the last peer, a click on
  line 0 writes the single line \<^verbatim>\<open>- [ ] B- [x] A\<close>: the text of the last peer was built
  without a line break (its last line is the last line of the file), and the block moved
  behind it is appended to its last line.
\<close>

theorem blocks_merged_at_end_of_file:
  "sortCheckboxesAroundClick \<lparr>enableGlobalCheckboxSort = True, debugMode = False\<rparr>
     \<lparr>editor = [''- [ ] A'', ''- [ ] B''], viewFile = True, fileCache = None\<rparr> 0 =
   Transaction \<lparr>line = 0, ch = 0\<rparr> \<lparr>line = 1, ch = 7\<rparr> ''- [ ] B- [x] A''"
  by code_simp

text \<open>
  C3. The lines below a peer should appear in the output unchanged. On the document
  \<^verbatim>\<open>- [ ] A\<close>, \<^verbatim>\<open>- [ ] B\<close>, \<^verbatim>\<open>  - c\<close>, a click on line 0 leaves the lines \<^verbatim>\<open>- [ ] B\<close> and
  \<^verbatim>\<open>  - c- [x] A\<close>: the line \<^verbatim>\<open>  - c\<close> below the peer B is no longer a line of the document.
\<close>

theorem descendant_line_changed_at_end_of_file:
  "(let d = [''- [ ] A'', ''- [ ] B'', ''  - c''] in
    documentAfter d
      (sortCheckboxesAroundClick \<lparr>enableGlobalCheckboxSort = True, debugMode = False\<rparr>
         \<lparr>editor = d, viewFile = True, fileCache = None\<rparr> 0)) =
   [''- [ ] B'', ''  - c- [x] A'']"
  by code_simp

text \<open>
  C10. The lines written should be the lines of the replaced range, with the marker of
  the clicked line flipped. On the document \<^verbatim>\<open># Todo\<close>, \<^verbatim>\<open>- [x] A\<close>, \<^verbatim>\<open>- [x] B\<close>, a click
  on line 2 replaces the two lines of the range by the one line \<^verbatim>\<open>- [ ] B- [x] A\<close>.
\<close>

theorem lines_merged_at_end_of_file:
  "(let d = [''# Todo'', ''- [x] A'', ''- [x] B''] in
    documentAfter d
      (sortCheckboxesAroundClick \<lparr>enableGlobalCheckboxSort = True, debugMode = False\<rparr>
         \<lparr>editor = d, viewFile = True, fileCache = None\<rparr> 2)) =
   [''# Todo'', ''- [ ] B- [x] A'']"
  by code_simp

text \<open>
  C8. The text of a transaction does not end with a line break when the replaced range
  ends at the last line of the document, and ends with one line break, not two, when
  lines follow the range.
\<close>

theorem replacement_text_trailing_newline:
  assumes "wellFormed (editor view)"
    and "sortCheckboxesAroundClick settings view clickedLineNumber = Transaction from to t"
  shows "(overallBlockEndLine (editor view) clickedLineNumber + 1 = lineCount (editor view) \<longrightarrow>
            \<not> endsWithNewline t) \<and>
         (overallBlockEndLine (editor view) clickedLineNumber + 1 < lineCount (editor view) \<longrightarrow>
            endsWithNewline t \<and> \<not> endsWithNewline (butlast t))"
proof -
  let ?d = "editor view" and ?c = clickedLineNumber
  from assms(2) have c: "?c < length ?d" and li: "listItemRegex (?d ! ?c)"
    and t: "t = textToInsert ?d ?c"
    by (auto simp: sortCheckboxesAroundClick_def sortPeerBlock_def lineCount_def getLine_def
        split: if_splits)
  from textToInsert_ends [OF c li assms(1)] show ?thesis unfolding t .
qed

theorem replacement_text_trailing_newline_witness:
  "(let d = [''- [ ] A'', ''- [ ] B'', ''Notes''];
        view = \<lparr>editor = d, viewFile = True, fileCache = None\<rparr>;
        settings = \<lparr>enableGlobalCheckboxSort = True, debugMode = False\<rparr>;
        t = ''- [ ] B'' @ [newline] @ ''- [x] A'' @ [newline]
    in wellFormed d \<and>
       sortCheckboxesAroundClick settings view 0 =
         Transaction \<lparr>line = 0, ch = 0\<rparr> \<lparr>line = 2, ch = 0\<rparr> t \<and>
       overallBlockEndLine d 0 + 1 < lineCount d \<and>
       endsWithNewline t \<and> \<not> endsWithNewline (butlast t)) \<and>
   (let d = [''- [ ] Buy milk'', ''- [ ] Get gas'', ''- [x] Bread''];
        view = \<lparr>editor = d, viewFile = True, fileCache = None\<rparr>;
        settings = \<lparr>enableGlobalCheckboxSort = True, debugMode = False\<rparr>;
        t = ''- [ ] Get gas'' @ [newline] @ ''- [x] Buy milk'' @ [newline] @ ''- [x] Bread''
    in wellFormed d \<and>
       sortCheckboxesAroundClick settings view 0 =
         Transaction \<lparr>line = 0, ch = 0\<rparr> \<lparr>line = 2, ch = 11\<rparr> t \<and>
       overallBlockEndLine d 0 + 1 = lineCount d \<and>
       \<not> endsWithNewline t)"
proof -
  let ?settings = "\<lparr>enableGlobalCheckboxSort = True, debugMode = False\<rparr>"
  let ?d = "[''- [ ] A'', ''- [ ] B'', ''Notes'']"
  let ?view = "\<lparr>editor = ?d, viewFile = True, fileCache = None\<rparr>"
  let ?t = "''- [ ] B'' @ [newline] @ ''- [x] A'' @ [newline]"
  have w: "wellFormed (editor ?view)" by (simp add: wellFormed_def newline_def)
  have o: "sortCheckboxesAroundClick ?settings ?view 0 =
         Transaction \<lparr>line = 0, ch = 0\<rparr> \<lparr>line = 2, ch = 0\<rparr> ?t" by code_simp
  have e: "overallBlockEndLine (editor ?view) 0 + 1 < lineCount (editor ?view)" by code_simp
  let ?d' = "[''- [ ] Buy milk'', ''- [ ] Get gas'', ''- [x] Bread'']"
  let ?view' = "\<lparr>editor = ?d', viewFile = True, fileCache = None\<rparr>"
  let ?t' = "''- [ ] Get gas'' @ [newline] @ ''- [x] Buy milk'' @ [newline] @ ''- [x] Bread''"
  have w': "wellFormed (editor ?view')" by (simp add: wellFormed_def newline_def)
  have o': "sortCheckboxesAroundClick ?settings ?view' 0 =
         Transaction \<lparr>line = 0, ch = 0\<rparr> \<lparr>line = 2, ch = 11\<rparr> ?t'" by code_simp
  have e': "overallBlockEndLine (editor ?view') 0 + 1 = lineCount (editor ?view')" by code_simp
  have a: "endsWithNewline ?t \<and> \<not> endsWithNewline (butlast ?t)"
    using replacement_text_trailing_newline [OF w o] e by blast
  have b: "\<not> endsWithNewline ?t'"
    using replacement_text_trailing_newline [OF w' o'] e' by blast
  from a b e w o e' w' o' show ?thesis
    unfolding Let_def by simp
qed

text \<open>
  C6. For an enabled click on a list item, no write is issued exactly when the text to
  insert and the text of the replaced range are the same up to one line break at the
  end, and whenever they differ in more than that, the transaction is issued. The code
  compares the two texts after \<^verbatim>\<open>trim\<close>, which ignores all white space at both ends; on
  the texts of one call this is the same test, because the text to insert holds the lines
  of the range, each a list item, in some order (\<open>trim_eq_imp_same_text\<close>): the two
  texts are equal after \<^verbatim>\<open>trim\<close> only when they are equal.
\<close>

theorem no_write_iff_same_text:
  assumes "wellFormed (editor view)"
    and "clickedLineNumber < lineCount (editor view)"
    and "effectiveSortingEnabled settings view clickedLineNumber"
    and "listItemRegex (getLine (editor view) clickedLineNumber)"
  shows "(sortCheckboxesAroundClick settings view clickedLineNumber = NoChangesNeeded \<longleftrightarrow>
            sameUpToTrailingNewline (textToInsert (editor view) clickedLineNumber)
              (originalBlockText (editor view) clickedLineNumber)) \<and>
         (\<not> sameUpToTrailingNewline (textToInsert (editor view) clickedLineNumber)
              (originalBlockText (editor view) clickedLineNumber) \<longrightarrow>
          sortCheckboxesAroundClick settings view clickedLineNumber =
            Transaction (deleteFrom (editor view) clickedLineNumber)
              (deleteTo (editor view) clickedLineNumber)
              (textToInsert (editor view) clickedLineNumber)) \<and>
         (sortCheckboxesAroundClick settings view clickedLineNumber = NoChangesNeeded \<longleftrightarrow>
            textToInsert (editor view) clickedLineNumber =
            originalBlockText (editor view) clickedLineNumber)"
proof -
  let ?d = "editor view" and ?c = clickedLineNumber
  have c: "?c < length ?d" using assms(2) by (simp add: lineCount_def)
  have li: "listItemRegex (?d ! ?c)" using assms(4) by (simp add: getLine_def)
  have out: "sortCheckboxesAroundClick settings view ?c =
      (if trim (textToInsert ?d ?c) = trim (originalBlockText ?d ?c) then NoChangesNeeded
       else Transaction (deleteFrom ?d ?c) (deleteTo ?d ?c) (textToInsert ?d ?c))"
    using assms(2-4) by (simp add: sortCheckboxesAroundClick_def sortPeerBlock_def)
  have "trim (textToInsert ?d ?c) = trim (originalBlockText ?d ?c) \<longleftrightarrow>
        sameUpToTrailingNewline (textToInsert ?d ?c) (originalBlockText ?d ?c)"
  proof
    assume "trim (textToInsert ?d ?c) = trim (originalBlockText ?d ?c)"
    with c li assms(1) have "textToInsert ?d ?c = originalBlockText ?d ?c"
      by (rule trim_eq_imp_same_text)
    then show "sameUpToTrailingNewline (textToInsert ?d ?c) (originalBlockText ?d ?c)"
      by (simp add: sameUpToTrailingNewline_def)
  next
    assume "sameUpToTrailingNewline (textToInsert ?d ?c) (originalBlockText ?d ?c)"
    then show "trim (textToInsert ?d ?c) = trim (originalBlockText ?d ?c)"
      by (rule sameUpToTrailingNewline_trim)
  qed
  moreover have "trim (textToInsert ?d ?c) = trim (originalBlockText ?d ?c) \<longleftrightarrow>
        textToInsert ?d ?c = originalBlockText ?d ?c"
    using trim_eq_imp_same_text [OF c li assms(1)] by auto
  ultimately show ?thesis using out by simp
qed

theorem no_write_iff_same_text_witness:
  "(let view = \<lparr>editor = [''- [/] A'', ''- [x] B'', []], viewFile = True, fileCache = None\<rparr>;
        settings = \<lparr>enableGlobalCheckboxSort = True, debugMode = False\<rparr>
    in wellFormed (editor view) \<and> 0 < lineCount (editor view) \<and>
       effectiveSortingEnabled settings view 0 \<and> listItemRegex (getLine (editor view) 0) \<and>
       sortCheckboxesAroundClick settings view 0 = NoChangesNeeded \<and>
       sameUpToTrailingNewline (textToInsert (editor view) 0) (originalBlockText (editor view) 0)) \<and>
   (let view = \<lparr>editor = [''- [ ] A'', ''- [x] B'', []], viewFile = True, fileCache = None\<rparr>;
        settings = \<lparr>enableGlobalCheckboxSort = True, debugMode = False\<rparr>
    in wellFormed (editor view) \<and> 0 < lineCount (editor view) \<and>
       effectiveSortingEnabled settings view 0 \<and> listItemRegex (getLine (editor view) 0) \<and>
       sortCheckboxesAroundClick settings view 0 =
         Transaction \<lparr>line = 0, ch = 0\<rparr> \<lparr>line = 2, ch = 0\<rparr>
           (''- [x] A'' @ [newline] @ ''- [x] B'' @ [newline]) \<and>
       \<not> sameUpToTrailingNewline (textToInsert (editor view) 0) (originalBlockText (editor view) 0))"
proof -
  let ?settings = "\<lparr>enableGlobalCheckboxSort = True, debugMode = False\<rparr>"
  let ?view = "\<lparr>editor = [''- [/] A'', ''- [x] B'', []], viewFile = True, fileCache = None\<rparr>"
  have w: "wellFormed (editor ?view)" by (simp add: wellFormed_def newline_def)
  have l: "0 < lineCount (editor ?view)" by (simp add: lineCount_def)
  have e: "effectiveSortingEnabled ?settings ?view 0" by code_simp
  have i: "listItemRegex (getLine (editor ?view) 0)" by code_simp
  have n: "sortCheckboxesAroundClick ?settings ?view 0 = NoChangesNeeded" by code_simp
  have a: "sameUpToTrailingNewline (textToInsert (editor ?view) 0) (originalBlockText (editor ?view) 0)"
    using no_write_iff_same_text [OF w l e i] n by blast
  let ?view' = "\<lparr>editor = [''- [ ] A'', ''- [x] B'', []], viewFile = True, fileCache = None\<rparr>"
  have w': "wellFormed (editor ?view')" by (simp add: wellFormed_def newline_def)
  have l': "0 < lineCount (editor ?view')" by (simp add: lineCount_def)
  have e': "effectiveSortingEnabled ?settings ?view' 0" by code_simp
  have i': "listItemRegex (getLine (editor ?view') 0)" by code_simp
  have n': "sortCheckboxesAroundClick ?settings ?view' 0 =
         Transaction \<lparr>line = 0, ch = 0\<rparr> \<lparr>line = 2, ch = 0\<rparr>
           (''- [x] A'' @ [newline] @ ''- [x] B'' @ [newline])" by code_simp
  have b: "\<not> sameUpToTrailingNewline (textToInsert (editor ?view') 0)
             (originalBlockText (editor ?view') 0)"
    using no_write_iff_same_text [OF w' l' e' i'] n' by simp
  from a b w l e i n w' l' e' i' n' show ?thesis
    unfolding Let_def by blast
qed

end
